theory Spec2Isabelle
  imports Complex_Main
begin

section \<open>Numbers and strings of the host language\<close>

text \<open>
  The program is TypeScript. Its values of type \<open>number\<close> are IEEE doubles; they are
  modelled by the exact rationals extended with \<open>NaN\<close> and the two infinities. The
  model is exact on the integers of magnitude at most \<open>2^53\<close> and on sums, differences
  and products that stay in that range; rounding and the sign of zero are not modelled.
  Strings are lists of \<open>char\<close>, one \<open>char\<close> per code unit in the range 0 to 255.
\<close>

datatype jsnum = NaN | PInf | NInf | Fin rat

fun js_neg :: "jsnum \<Rightarrow> jsnum" where
  "js_neg NaN = NaN"
| "js_neg PInf = NInf"
| "js_neg NInf = PInf"
| "js_neg (Fin a) = Fin (- a)"

definition js_add :: "jsnum \<Rightarrow> jsnum \<Rightarrow> jsnum" where
  "js_add a b =
     (case (a, b) of
        (NaN, _) \<Rightarrow> NaN
      | (_, NaN) \<Rightarrow> NaN
      | (Fin x, Fin y) \<Rightarrow> Fin (x + y)
      | (PInf, NInf) \<Rightarrow> NaN
      | (NInf, PInf) \<Rightarrow> NaN
      | (Fin x, _) \<Rightarrow> b
      | _ \<Rightarrow> a)"

definition js_sub :: "jsnum \<Rightarrow> jsnum \<Rightarrow> jsnum" where
  "js_sub a b = js_add a (js_neg b)"

text \<open>The infinity whose sign is the product of two signs; \<open>True\<close> stands for negative.\<close>

definition js_inf :: "bool \<Rightarrow> bool \<Rightarrow> jsnum" where
  "js_inf s t = (if s = t then PInf else NInf)"

definition js_mul :: "jsnum \<Rightarrow> jsnum \<Rightarrow> jsnum" where
  "js_mul a b =
     (case (a, b) of
        (NaN, _) \<Rightarrow> NaN
      | (_, NaN) \<Rightarrow> NaN
      | (Fin x, Fin y) \<Rightarrow> Fin (x * y)
      | (Fin x, _) \<Rightarrow> if x = 0 then NaN else js_inf (x < 0) (b = NInf)
      | (_, Fin y) \<Rightarrow> if y = 0 then NaN else js_inf (a = NInf) (y < 0)
      | _ \<Rightarrow> js_inf (a = NInf) (b = NInf))"

definition js_div :: "jsnum \<Rightarrow> jsnum \<Rightarrow> jsnum" where
  "js_div a b =
     (case (a, b) of
        (NaN, _) \<Rightarrow> NaN
      | (_, NaN) \<Rightarrow> NaN
      | (Fin x, Fin y) \<Rightarrow>
          if y = 0 then (if x = 0 then NaN else js_inf (x < 0) False) else Fin (x / y)
      | (Fin x, _) \<Rightarrow> Fin 0
      | (_, Fin y) \<Rightarrow> js_inf (a = NInf) (y < 0)
      | _ \<Rightarrow> NaN)"

definition isNaN :: "jsnum \<Rightarrow> bool" where
  "isNaN v \<longleftrightarrow> v = NaN"

subsection \<open>The conversion \<open>Number(v)\<close> of a string\<close>

text \<open>
  \<open>Number\<close> applied to a string strips white space and line terminators at both ends,
  gives 0 for what is left when it is empty, the value of a decimal literal (an optional
  sign, then \<open>Infinity\<close> or digits with an optional fraction and exponent) or of an
  unsigned \<open>0x\<close>, \<open>0o\<close> or \<open>0b\<close> literal, and \<open>NaN\<close> for everything else.
\<close>

definition isWhiteSpace :: "char \<Rightarrow> bool" where
  "isWhiteSpace c \<longleftrightarrow>
     c \<in> set [CHR 0x09, CHR 0x0A, CHR 0x0B, CHR 0x0C, CHR 0x0D, CHR 0x20, CHR 0xA0]"

definition trim :: "string \<Rightarrow> string" where
  "trim s = rev (dropWhile isWhiteSpace (rev (dropWhile isWhiteSpace s)))"

definition isDigit :: "char \<Rightarrow> bool" where
  "isDigit c \<longleftrightarrow> c \<in> set ''0123456789''"

fun indexOf :: "char \<Rightarrow> string \<Rightarrow> nat option" where
  "indexOf c [] = None"
| "indexOf c (d # ds) = (if c = d then Some 0 else map_option Suc (indexOf c ds))"

definition digitOf :: "nat \<Rightarrow> char \<Rightarrow> nat option" where
  "digitOf radix c =
     (case indexOf c ''0123456789abcdef'' of
        Some v \<Rightarrow> if v < radix then Some v else None
      | None \<Rightarrow>
         (case indexOf c ''ABCDEF'' of
            Some v \<Rightarrow> if v + 10 < radix then Some (v + 10) else None
          | None \<Rightarrow> None))"

fun radixDigits :: "nat \<Rightarrow> nat \<Rightarrow> string \<Rightarrow> nat option" where
  "radixDigits radix acc [] = Some acc"
| "radixDigits radix acc (c # cs) =
     (case digitOf radix c of
        None \<Rightarrow> None
      | Some v \<Rightarrow> radixDigits radix (radix * acc + v) cs)"

definition radixValue :: "nat \<Rightarrow> string \<Rightarrow> nat option" where
  "radixValue radix s = (if s = [] then None else radixDigits radix 0 s)"

definition splitSign :: "string \<Rightarrow> bool \<times> string" where
  "splitSign s =
     (case s of
        [] \<Rightarrow> (False, [])
      | c # r \<Rightarrow> if c = CHR ''-'' then (True, r) else if c = CHR ''+'' then (False, r)
                 else (False, s))"

definition exponentPart :: "string \<Rightarrow> int option" where
  "exponentPart s =
     (case s of
        [] \<Rightarrow> Some 0
      | c # r \<Rightarrow>
          if c = CHR ''e'' \<or> c = CHR ''E'' then
            (case radixValue 10 (snd (splitSign r)) of
               None \<Rightarrow> None
             | Some e \<Rightarrow> Some (if fst (splitSign r) then - int e else int e))
          else None)"

definition scale10 :: "rat \<Rightarrow> int \<Rightarrow> rat" where
  "scale10 m e = (if 0 \<le> e then m * 10 ^ nat e else m / 10 ^ nat (- e))"

definition strUnsignedDecimalLiteral :: "string \<Rightarrow> rat option" where
  "strUnsignedDecimalLiteral s =
     (let ip = takeWhile isDigit s;
          r1 = dropWhile isDigit s;
          fp = (case r1 of [] \<Rightarrow> [] | c # r \<Rightarrow> if c = CHR ''.'' then takeWhile isDigit r else []);
          r2 = (case r1 of [] \<Rightarrow> [] | c # r \<Rightarrow> if c = CHR ''.'' then dropWhile isDigit r else r1)
      in if ip = [] \<and> fp = [] then None
         else
           (case (radixValue 10 (ip @ fp), exponentPart r2) of
              (Some m, Some e) \<Rightarrow> Some (scale10 (of_nat m) (e - int (length fp)))
            | _ \<Rightarrow> None))"

definition strDecimalLiteral :: "string \<Rightarrow> jsnum" where
  "strDecimalLiteral s =
     (let neg = fst (splitSign s); u = snd (splitSign s)
      in if u = ''Infinity'' then (if neg then NInf else PInf)
         else
           (case strUnsignedDecimalLiteral u of
              None \<Rightarrow> NaN
            | Some q \<Rightarrow> Fin (if neg then - q else q)))"

definition nonDecimalRadix :: "string \<Rightarrow> nat option" where
  "nonDecimalRadix s =
     (if take 2 s = ''0x'' \<or> take 2 s = ''0X'' then Some 16
      else if take 2 s = ''0o'' \<or> take 2 s = ''0O'' then Some 8
      else if take 2 s = ''0b'' \<or> take 2 s = ''0B'' then Some 2
      else None)"

definition toNumber :: "string \<Rightarrow> jsnum" where
  "toNumber v =
     (let s = trim v
      in if s = [] then Fin 0
         else
           (case nonDecimalRadix s of
              Some radix \<Rightarrow>
                (case radixValue radix (drop 2 s) of
                   None \<Rightarrow> NaN
                 | Some n \<Rightarrow> Fin (of_nat n))
            | None \<Rightarrow> strDecimalLiteral s))"

text \<open>\<open>isNumber\<close> of \<open>util.ts\<close>.\<close>

definition isNumber :: "string \<Rightarrow> bool" where
  "isNumber v \<longleftrightarrow> \<not> isNaN (toNumber v) \<and> v \<noteq> []"

section \<open>Tokens\<close>

text \<open>
  \<open>TokenType\<close> is the enumeration of \<open>lexer.ts\<close>; each member's string value is kept
  by \<open>tokenTypeValue\<close>. A token is the pair of its type and its string value.
\<close>

datatype TokenType =
    Illegal | EOF
  | StartParenthesis | StartBracket | StartBrace
  | EndParenthesis | EndBracket | EndBrace
  | Number
  | Sum | Sub | Mul | Div
  | Equal | EqualOrGreaterThan | EqualOrLessThan | LessThan | GreaterThan | Similar

fun tokenTypeValue :: "TokenType \<Rightarrow> string" where
  "tokenTypeValue Illegal = ''Illegal''"
| "tokenTypeValue EOF = ''EOF''"
| "tokenTypeValue StartParenthesis = ''(''"
| "tokenTypeValue StartBracket = ''[''"
| "tokenTypeValue StartBrace = ''{''"
| "tokenTypeValue EndParenthesis = '')''"
| "tokenTypeValue EndBracket = '']''"
| "tokenTypeValue EndBrace = ''}''"
| "tokenTypeValue Number = ''Number''"
| "tokenTypeValue Sum = ''+''"
| "tokenTypeValue Sub = ''-''"
| "tokenTypeValue Mul = ''*''"
| "tokenTypeValue Div = ''/''"
| "tokenTypeValue Equal = ''=''"
| "tokenTypeValue EqualOrGreaterThan = ''>=''"
| "tokenTypeValue EqualOrLessThan = ''<=''"
| "tokenTypeValue LessThan = ''<''"
| "tokenTypeValue GreaterThan = ''>''"
| "tokenTypeValue Similar = ''~''"

definition TokenString :: "string \<Rightarrow> TokenType option" where
  "TokenString = map_of
     [(''EOF'', EOF),
      (''('', StartParenthesis), (''['', StartBracket), (''{'', StartBrace),
      ('')'', EndParenthesis), ('']'', EndBracket), (''}'', EndBrace),
      (''+'', Sum), (''-'', Sub), (''*'', Mul), (''/'', Div),
      (''='', Equal), (''<'', LessThan), (''>'', GreaterThan),
      (''<='', EqualOrLessThan), (''>='', EqualOrGreaterThan), (''~'', Similar)]"

definition ComparationSymbols :: "TokenType list" where
  "ComparationSymbols = [Equal, LessThan, GreaterThan, Similar]"

type_synonym Token = "TokenType \<times> string"

definition newToken :: "TokenType \<Rightarrow> string \<Rightarrow> Token" where
  "newToken ty v = (ty, v)"

section \<open>The lexer\<close>

text \<open>
  The fields of the class \<open>Lexer\<close>. The field \<open>char\<close> is named \<open>ch\<close> here; it holds
  a string, which is one character of the input or the three characters \<open>EOF\<close> once
  the input is exhausted. Every method that changes the object returns the new state.
\<close>

record Lexer =
  input :: string
  position :: nat
  readPosition :: nat
  ch :: string
  line :: nat

text \<open>\<open>charAt\<close> and \<open>slice\<close> of the host language; out of range they give the empty string.\<close>

definition charAt :: "string \<Rightarrow> nat \<Rightarrow> string" where
  "charAt s i = (if i < length s then [s ! i] else [])"

definition slice :: "string \<Rightarrow> nat \<Rightarrow> nat \<Rightarrow> string" where
  "slice s a b = take (b - a) (drop a s)"

definition readChar :: "Lexer \<Rightarrow> Lexer" where
  "readChar l =
     l\<lparr>ch := (if readPosition l \<ge> length (input l) then tokenTypeValue EOF
               else charAt (input l) (readPosition l)),
       position := readPosition l,
       readPosition := readPosition l + 1\<rparr>"

definition peekChar :: "Lexer \<Rightarrow> string" where
  "peekChar l =
     (if readPosition l \<ge> length (input l) then tokenTypeValue EOF
      else charAt (input l) (readPosition l))"

definition lastChar :: "Lexer \<Rightarrow> string" where
  "lastChar l =
     (if position l = 0 then [CHR 0x00] else charAt (input l) (position l - 1))"

text \<open>The constructor: the fields' initial values, then one \<open>readChar\<close>.\<close>

definition newLexer :: "string \<Rightarrow> Lexer" where
  "newLexer expression =
     readChar \<lparr>input = expression, position = 0, readPosition = 0, ch = [CHR 0x00], line = 0\<rparr>"

definition isComparation :: "TokenType option \<Rightarrow> bool" where
  "isComparation ty = (case ty of None \<Rightarrow> False | Some t \<Rightarrow> t \<in> set ComparationSymbols)"

lemma isNumber_EOF: "\<not> isNumber (tokenTypeValue EOF)"
  by (simp add: isNumber_def isNaN_def toNumber_def trim_def isWhiteSpace_def
      nonDecimalRadix_def strDecimalLiteral_def strUnsignedDecimalLiteral_def splitSign_def
      isDigit_def Let_def)

lemma isComparation_EOF: "\<not> isComparation (TokenString (tokenTypeValue EOF))"
  by (simp add: isComparation_def TokenString_def ComparationSymbols_def)

text \<open>The loop of \<open>readComparation\<close>, and the method.\<close>

function readComparation_loop :: "Lexer \<Rightarrow> Lexer" where
  "readComparation_loop l =
     (if isComparation (TokenString (peekChar l)) then readComparation_loop (readChar l) else l)"
  by pat_completeness auto
termination
proof (relation "measure (\<lambda>l. length (input l) - readPosition l)")
  show "wf (measure (\<lambda>l. length (input l) - readPosition l))"
    by simp
next
  fix l :: Lexer
  assume c: "isComparation (TokenString (peekChar l))"
  have "readPosition l < length (input l)"
  proof (rule ccontr)
    assume "\<not> readPosition l < length (input l)"
    then have "peekChar l = tokenTypeValue EOF"
      by (simp add: peekChar_def)
    with c show False
      using isComparation_EOF by simp
  qed
  then show "(readChar l, l) \<in> measure (\<lambda>l. length (input l) - readPosition l)"
    by (simp add: readChar_def)
qed

definition readComparation :: "Lexer \<Rightarrow> string \<times> Lexer" where
  "readComparation l =
     (let l' = readComparation_loop l
      in (slice (input l') (position l) (readPosition l'), l'))"

text \<open>The loop of \<open>readNumber\<close>, and the method.\<close>

function readNumber_loop :: "Lexer \<Rightarrow> Lexer" where
  "readNumber_loop l =
     (if isNumber (peekChar l) then readNumber_loop (readChar l) else l)"
  by pat_completeness auto
termination
proof (relation "measure (\<lambda>l. length (input l) - readPosition l)")
  show "wf (measure (\<lambda>l. length (input l) - readPosition l))"
    by simp
next
  fix l :: Lexer
  assume c: "isNumber (peekChar l)"
  have "readPosition l < length (input l)"
  proof (rule ccontr)
    assume "\<not> readPosition l < length (input l)"
    then have "peekChar l = tokenTypeValue EOF"
      by (simp add: peekChar_def)
    with c show False
      using isNumber_EOF by simp
  qed
  then show "(readChar l, l) \<in> measure (\<lambda>l. length (input l) - readPosition l)"
    by (simp add: readChar_def)
qed

definition readNumber :: "Lexer \<Rightarrow> string \<times> Lexer" where
  "readNumber l =
     (let l' = readNumber_loop l
      in (slice (input l') (position l) (readPosition l'), l'))"

definition isSignedNumber :: "Lexer \<Rightarrow> bool" where
  "isSignedNumber l \<longleftrightarrow>
     (ch l = ''+'' \<or> ch l = ''-'') \<and> isNumber (peekChar l) \<and> \<not> isNumber (lastChar l)"

definition readTokenType :: "Lexer \<Rightarrow> string \<times> Lexer" where
  "readTokenType l = (if isSignedNumber l then readNumber l else (ch l, l))"

definition isSkipped :: "string \<Rightarrow> bool" where
  "isSkipped c \<longleftrightarrow> c = '' '' \<or> c = [CHR 0x0A] \<or> c = [CHR 0x09] \<or> c = [CHR 0x0D]"

function skipWhitespace :: "Lexer \<Rightarrow> Lexer" where
  "skipWhitespace l =
     (if isSkipped (ch l)
      then skipWhitespace
             (readChar (if ch l = [CHR 0x0A] then l\<lparr>line := line l + 1\<rparr> else l))
      else l)"
  by pat_completeness auto
termination
  by (relation "measure (\<lambda>l. (if isSkipped (ch l) then 1 else 0) + (length (input l) - readPosition l))")
     (auto simp: readChar_def isSkipped_def charAt_def)

declare readComparation_loop.simps [simp del] readNumber_loop.simps [simp del]
  skipWhitespace.simps [simp del]

text \<open>\<open>nextToken\<close>: the token and the lexer after it.\<close>

definition nextToken :: "Lexer \<Rightarrow> Token \<times> Lexer" where
  "nextToken l0 =
     (let l = skipWhitespace l0;
          tokenType = TokenString (ch l)
      in if isComparation tokenType then
           (let (v, l') = readComparation l
            in (newToken (case TokenString v of None \<Rightarrow> Illegal | Some t \<Rightarrow> t) v, readChar l'))
         else if tokenType \<noteq> None then
           (let tokenType' = (if isSignedNumber l then Some Number else tokenType);
                (v, l') = readTokenType l
            in (newToken (case tokenType' of None \<Rightarrow> Illegal | Some t \<Rightarrow> t) v, readChar l'))
         else if isNumber (ch l) then
           (let (v, l') = readNumber l
            in (newToken (if v = [] then Illegal else Number) v, readChar l'))
         else (newToken Illegal (ch l), readChar l))"

definition getLine :: "Lexer \<Rightarrow> nat" where
  "getLine l = line l"

text \<open>
  The loop of the lexer's documentation and tests: the tokens before the first \<open>EOF\<close>.
  Every token but \<open>EOF\<close> spans at least one character, so the length of the text plus
  one bounds the number of turns.
\<close>

fun tokensFrom :: "nat \<Rightarrow> Lexer \<Rightarrow> Token list" where
  "tokensFrom 0 l = []"
| "tokensFrom (Suc n) l =
     (let (t, l') = nextToken l
      in if fst t = EOF then [] else t # tokensFrom n l')"

definition tokenize :: "string \<Rightarrow> Token list" where
  "tokenize s = tokensFrom (Suc (length s)) (newLexer s)"

section \<open>The lexer on a canonical state\<close>

text \<open>
  \<open>isNumber\<close> on a string of one character: it holds of a digit and of every character
  that \<open>Number\<close> strips as white space, since \<open>Number\<close> of a blank string is 0.
\<close>

definition numChar :: "char \<Rightarrow> bool" where
  "numChar c \<longleftrightarrow> isDigit c \<or> isWhiteSpace c"

lemma isDigit_cases: "isDigit c \<Longrightarrow> c = CHR ''0'' \<or> c = CHR ''1'' \<or> c = CHR ''2'' \<or> c = CHR ''3'' \<or> c = CHR ''4''
   \<or> c = CHR ''5'' \<or> c = CHR ''6'' \<or> c = CHR ''7'' \<or> c = CHR ''8'' \<or> c = CHR ''9''"
  by (simp add: isDigit_def)

lemma digitOf_digit: "isDigit c \<Longrightarrow> \<exists>v. digitOf 10 c = Some v"
  by (drule isDigit_cases) (elim disjE; simp add: digitOf_def)

lemma isDigit_not_sign: "isDigit c \<Longrightarrow> c \<noteq> CHR ''-'' \<and> c \<noteq> CHR ''+'' \<and> c \<noteq> CHR ''.''"
  by (drule isDigit_cases) (elim disjE; simp)

lemma trim_single: "trim [c] = (if isWhiteSpace c then [] else [c])"
  by (simp add: trim_def)

lemma strUnsigned_nil: "strUnsignedDecimalLiteral [] = None"
  by (simp add: strUnsignedDecimalLiteral_def)

lemma strUnsigned_single:
  "strUnsignedDecimalLiteral [c] = None \<longleftrightarrow> \<not> isDigit c"
proof (cases "isDigit c")
  case True
  then obtain v where v: "digitOf 10 c = Some v"
    using digitOf_digit by blast
  with True show ?thesis
    by (simp add: strUnsignedDecimalLiteral_def radixValue_def exponentPart_def)
next
  case False
  then show ?thesis
    by (simp add: strUnsignedDecimalLiteral_def)
qed

lemma strDecimal_single: "strDecimalLiteral [c] = NaN \<longleftrightarrow> \<not> isDigit c"
proof (cases "c = CHR ''-'' \<or> c = CHR ''+''")
  case True
  then have "\<not> isDigit c"
    using isDigit_not_sign by blast
  with True show ?thesis
    by (auto simp add: strDecimalLiteral_def splitSign_def strUnsigned_nil)
next
  case False
  then have "splitSign [c] = (False, [c])"
    by (simp add: splitSign_def)
  then show ?thesis
    using strUnsigned_single [of c]
    by (auto simp add: strDecimalLiteral_def split: option.splits)
qed

lemma isNumber_single: "isNumber [c] \<longleftrightarrow> numChar c"
proof -
  have nd: "nonDecimalRadix [c] = None"
    by (simp add: nonDecimalRadix_def)
  have "isDigit c \<Longrightarrow> \<not> isWhiteSpace c"
    by (drule isDigit_cases) (elim disjE; simp add: isWhiteSpace_def)
  then show ?thesis
    using strDecimal_single [of c]
    by (auto simp add: isNumber_def isNaN_def toNumber_def trim_single numChar_def nd)
qed

text \<open>
  The states the lexer runs through: the input \<open>s\<close>, the position \<open>i\<close>, the character
  there (or \<open>EOF\<close> past the end) and the line count \<open>n\<close>.
\<close>

definition lexAt :: "string \<Rightarrow> nat \<Rightarrow> nat \<Rightarrow> Lexer" where
  "lexAt s i n =
     \<lparr>input = s, position = i, readPosition = Suc i,
      ch = (if i < length s then [s ! i] else tokenTypeValue EOF), line = n\<rparr>"

definition skipChar :: "char \<Rightarrow> bool" where
  "skipChar c \<longleftrightarrow> c = CHR '' '' \<or> c = CHR 0x0A \<or> c = CHR 0x09 \<or> c = CHR 0x0D"

definition cmpChar :: "char \<Rightarrow> bool" where
  "cmpChar c \<longleftrightarrow> c = CHR ''='' \<or> c = CHR ''<'' \<or> c = CHR ''>'' \<or> c = CHR ''~''"

lemma newLexer_lexAt: "newLexer s = lexAt s 0 0"
  by (simp add: newLexer_def readChar_def lexAt_def charAt_def)

lemma readChar_lexAt: "readChar (lexAt s i n) = lexAt s (Suc i) n"
  by (simp add: readChar_def lexAt_def charAt_def)

lemma peekChar_lexAt:
  "peekChar (lexAt s i n) = (if Suc i < length s then [s ! Suc i] else tokenTypeValue EOF)"
  by (simp add: peekChar_def lexAt_def charAt_def)

lemma lexAt_line: "(lexAt s i n)\<lparr>line := m\<rparr> = lexAt s i m"
  by (simp add: lexAt_def)

lemma lexAt_sel:
  "input (lexAt s i n) = s" "position (lexAt s i n) = i" "readPosition (lexAt s i n) = Suc i"
  "line (lexAt s i n) = n" "ch (lexAt s i n) = (if i < length s then [s ! i] else tokenTypeValue EOF)"
  by (simp_all add: lexAt_def)

lemma isSkipped_single: "isSkipped [c] \<longleftrightarrow> skipChar c"
  by (simp add: isSkipped_def skipChar_def)

lemma isSkipped_EOF: "\<not> isSkipped (tokenTypeValue EOF)"
  by (simp add: isSkipped_def)

lemma isComparation_single: "isComparation (TokenString [c]) \<longleftrightarrow> cmpChar c"
  by (simp add: isComparation_def TokenString_def ComparationSymbols_def cmpChar_def)

lemma drop_nth_Cons: "i < length s \<Longrightarrow> drop i s = s ! i # drop (Suc i) s"
  by (simp add: Cons_nth_drop_Suc)

lemma skipWhitespace_lexAt:
  "skipWhitespace (lexAt s i n) =
     lexAt s (i + length (takeWhile skipChar (drop i s)))
       (n + count_list (takeWhile skipChar (drop i s)) (CHR 0x0A))"
proof (induction "length s - i" arbitrary: i n)
  case 0
  then have "drop i s = []" by simp
  moreover from 0 have "ch (lexAt s i n) = tokenTypeValue EOF"
    by (simp add: lexAt_sel)
  ultimately show ?case
    using isSkipped_EOF by (subst skipWhitespace.simps) simp
next
  case (Suc k)
  then have lt: "i < length s" by simp
  then have d: "drop i s = s ! i # drop (Suc i) s"
    by (rule drop_nth_Cons)
  from lt have c: "ch (lexAt s i n) = [s ! i]"
    by (simp add: lexAt_sel)
  show ?case
  proof (cases "skipChar (s ! i)")
    case False
    with c d show ?thesis
      by (subst skipWhitespace.simps) (simp add: isSkipped_single)
  next
    case True
    from Suc.hyps(2) have k: "k = length s - Suc i" by simp
    have "skipWhitespace (lexAt s i n) =
        skipWhitespace (lexAt s (Suc i) (if s ! i = CHR 0x0A then n + 1 else n))"
      using True c
      by (subst skipWhitespace.simps) (simp add: isSkipped_single lexAt_line readChar_lexAt lexAt_sel(4))
    also have "\<dots> = lexAt s (Suc i + length (takeWhile skipChar (drop (Suc i) s)))
        ((if s ! i = CHR 0x0A then n + 1 else n)
          + count_list (takeWhile skipChar (drop (Suc i) s)) (CHR 0x0A))"
      by (rule Suc.hyps(1) [OF k])
    finally show ?thesis
      using True d by simp
  qed
qed

lemma readNumber_loop_lexAt:
  "readNumber_loop (lexAt s i n) =
     lexAt s (i + length (takeWhile numChar (drop (Suc i) s))) n"
proof (induction "length s - Suc i" arbitrary: i)
  case 0
  then have "drop (Suc i) s = []" by simp
  moreover from 0 have "peekChar (lexAt s i n) = tokenTypeValue EOF"
    by (simp add: peekChar_lexAt)
  ultimately show ?case
    using isNumber_EOF by (subst readNumber_loop.simps) simp
next
  case (Suc k)
  then have lt: "Suc i < length s" by simp
  then have d: "drop (Suc i) s = s ! Suc i # drop (Suc (Suc i)) s"
    by (rule drop_nth_Cons)
  from lt have c: "peekChar (lexAt s i n) = [s ! Suc i]"
    by (simp add: peekChar_lexAt)
  show ?case
  proof (cases "numChar (s ! Suc i)")
    case False
    with c d show ?thesis
      by (subst readNumber_loop.simps) (simp add: isNumber_single)
  next
    case True
    from Suc.hyps(2) have k: "k = length s - Suc (Suc i)" by simp
    have "readNumber_loop (lexAt s i n) = readNumber_loop (lexAt s (Suc i) n)"
      using True c
      by (subst readNumber_loop.simps) (simp add: isNumber_single readChar_lexAt)
    also have "\<dots> = lexAt s (Suc i + length (takeWhile numChar (drop (Suc (Suc i)) s))) n"
      by (rule Suc.hyps(1) [OF k])
    finally show ?thesis
      using True d by simp
  qed
qed

lemma readComparation_loop_lexAt:
  "readComparation_loop (lexAt s i n) =
     lexAt s (i + length (takeWhile cmpChar (drop (Suc i) s))) n"
proof (induction "length s - Suc i" arbitrary: i)
  case 0
  then have "drop (Suc i) s = []" by simp
  moreover from 0 have "peekChar (lexAt s i n) = tokenTypeValue EOF"
    by (simp add: peekChar_lexAt)
  ultimately show ?case
    using isComparation_EOF by (subst readComparation_loop.simps) simp
next
  case (Suc k)
  then have lt: "Suc i < length s" by simp
  then have d: "drop (Suc i) s = s ! Suc i # drop (Suc (Suc i)) s"
    by (rule drop_nth_Cons)
  from lt have c: "peekChar (lexAt s i n) = [s ! Suc i]"
    by (simp add: peekChar_lexAt)
  show ?case
  proof (cases "cmpChar (s ! Suc i)")
    case False
    with c d show ?thesis
      by (subst readComparation_loop.simps) (simp add: isComparation_single)
  next
    case True
    from Suc.hyps(2) have k: "k = length s - Suc (Suc i)" by simp
    have "readComparation_loop (lexAt s i n) = readComparation_loop (lexAt s (Suc i) n)"
      using True c
      by (subst readComparation_loop.simps) (simp add: isComparation_single readChar_lexAt)
    also have "\<dots> = lexAt s (Suc i + length (takeWhile cmpChar (drop (Suc (Suc i)) s))) n"
      by (rule Suc.hyps(1) [OF k])
    finally show ?thesis
      using True d by simp
  qed
qed

text \<open>
  What \<open>nextToken\<close> reads at the front of \<open>r\<close>, the input left after the skipped
  white space, when \<open>lastChar\<close> is \<open>prev\<close>: the token, and the number of characters by
  which the position advances.
\<close>

definition scanToken :: "string \<Rightarrow> string \<Rightarrow> Token \<times> nat" where
  "scanToken prev r =
     (case r of
        [] \<Rightarrow> ((EOF, tokenTypeValue EOF), 1)
      | c # r' \<Rightarrow>
          if cmpChar c then
            ((case TokenString (c # takeWhile cmpChar r') of None \<Rightarrow> Illegal | Some t \<Rightarrow> t,
              c # takeWhile cmpChar r'),
             Suc (length (takeWhile cmpChar r')))
          else
            (case TokenString [c] of
               Some t \<Rightarrow>
                 if (c = CHR ''+'' \<or> c = CHR ''-'') \<and> (r' \<noteq> [] \<and> numChar (hd r'))
                    \<and> \<not> isNumber prev
                 then ((Number, c # takeWhile numChar r'), Suc (length (takeWhile numChar r')))
                 else ((t, [c]), 1)
             | None \<Rightarrow>
                 if numChar c
                 then ((Number, c # takeWhile numChar r'), Suc (length (takeWhile numChar r')))
                 else ((Illegal, [c]), 1)))"

lemma take_length_takeWhile: "take (length (takeWhile P xs)) xs = takeWhile P xs"
  by (induction xs) simp_all

lemma slice_lexAt:
  assumes "drop j s = c # r"
  shows "slice s j (Suc (j + length (takeWhile P r))) = c # takeWhile P r"
proof -
  have "slice s j (Suc (j + length (takeWhile P r))) = take (Suc (length (takeWhile P r))) (drop j s)"
    by (simp add: slice_def)
  then show ?thesis
    using assms by (simp add: take_length_takeWhile)
qed

lemma nextToken_at_end:
  assumes "length s \<le> j"
  shows "nextToken (lexAt s j n) = ((EOF, tokenTypeValue EOF), lexAt s (Suc j) n)"
proof -
  from assms have d: "drop j s = []" by simp
  have sk: "skipWhitespace (lexAt s j n) = lexAt s j n"
    by (simp add: skipWhitespace_lexAt d)
  from assms have c: "ch (lexAt s j n) = tokenTypeValue EOF"
    by (simp add: lexAt_sel)
  have "isSignedNumber (lexAt s j n) = False"
    by (simp add: isSignedNumber_def c)
  then show ?thesis
    by (simp add: nextToken_def sk c Let_def readTokenType_def readChar_lexAt newToken_def
        TokenString_def isComparation_def ComparationSymbols_def)
qed

lemma nextToken_at_char:
  assumes d: "drop j s = c # r" and ns: "\<not> skipChar c"
  shows "nextToken (lexAt s j n) =
     (fst (scanToken (lastChar (lexAt s j n)) (c # r)),
      lexAt s (j + snd (scanToken (lastChar (lexAt s j n)) (c # r))) n)"
proof -
  from d have lt: "j < length s"
    by (metis drop_all list.distinct(1) not_le_imp_less)
  with d have cj: "s ! j = c" and r: "r = drop (Suc j) s"
    using drop_nth_Cons [OF lt] by simp_all
  have sk: "skipWhitespace (lexAt s j n) = lexAt s j n"
    using ns by (simp add: skipWhitespace_lexAt d)
  have c: "ch (lexAt s j n) = [c]"
    using lt cj by (simp add: lexAt_sel)
  have pk: "isNumber (peekChar (lexAt s j n)) \<longleftrightarrow> r \<noteq> [] \<and> numChar (hd r)"
  proof (cases "Suc j < length s")
    case True
    then have "drop (Suc j) s = s ! Suc j # drop (Suc (Suc j)) s"
      by (rule drop_nth_Cons)
    with True r show ?thesis
      by (simp add: peekChar_lexAt isNumber_single)
  next
    case False
    with r show ?thesis
      using isNumber_EOF by (simp add: peekChar_lexAt)
  qed
  have sg: "isSignedNumber (lexAt s j n) \<longleftrightarrow>
      (c = CHR ''+'' \<or> c = CHR ''-'') \<and> (r \<noteq> [] \<and> numChar (hd r))
        \<and> \<not> isNumber (lastChar (lexAt s j n))"
    by (simp add: isSignedNumber_def c pk)
  have rn: "readNumber (lexAt s j n) =
      (c # takeWhile numChar r, lexAt s (j + length (takeWhile numChar r)) n)"
    using slice_lexAt [OF d, of numChar]
    by (simp add: readNumber_def readNumber_loop_lexAt Let_def lexAt_sel r [symmetric])
  have rc: "readComparation (lexAt s j n) =
      (c # takeWhile cmpChar r, lexAt s (j + length (takeWhile cmpChar r)) n)"
    using slice_lexAt [OF d, of cmpChar]
    by (simp add: readComparation_def readComparation_loop_lexAt Let_def lexAt_sel r [symmetric])
  show ?thesis
  proof (cases "cmpChar c")
    case True
    then show ?thesis
      by (simp add: nextToken_def sk c Let_def isComparation_single rc readChar_lexAt
          newToken_def scanToken_def)
  next
    case nc: False
    then have ic: "\<not> isComparation (TokenString [c])"
      by (simp add: isComparation_single)
    show ?thesis
    proof (cases "TokenString [c]")
      case None
      with ic have "\<not> isComparation None" by simp
      with nc None show ?thesis
        by (simp add: nextToken_def sk c Let_def rn readChar_lexAt
            newToken_def scanToken_def isNumber_single)
    next
      case (Some t)
      with ic have ic': "\<not> isComparation (Some t)" by simp
      show ?thesis
      proof (cases "isSignedNumber (lexAt s j n)")
        case True
        moreover from True sg have "(c = CHR ''+'' \<or> c = CHR ''-'') \<and> (r \<noteq> [] \<and> numChar (hd r))
            \<and> \<not> isNumber (lastChar (lexAt s j n))"
          by blast
        ultimately show ?thesis
          using nc Some ic'
          by (simp add: nextToken_def sk c Let_def rn readChar_lexAt
              newToken_def scanToken_def readTokenType_def)
      next
        case False
        moreover from False sg have "\<not> ((c = CHR ''+'' \<or> c = CHR ''-'') \<and> (r \<noteq> [] \<and> numChar (hd r))
            \<and> \<not> isNumber (lastChar (lexAt s j n)))"
          by blast
        ultimately show ?thesis
          using nc Some ic'
          by (auto simp add: nextToken_def sk c Let_def readChar_lexAt
              newToken_def scanToken_def readTokenType_def)
      qed
    qed
  qed
qed

lemma takeWhile_dropWhile_nil: "takeWhile P (dropWhile P xs) = []"
  by (induction xs) simp_all

lemma nextToken_skip:
  "nextToken (lexAt s i n) =
     nextToken (lexAt s (i + length (takeWhile skipChar (drop i s)))
       (n + count_list (takeWhile skipChar (drop i s)) (CHR 0x0A)))"
proof -
  let ?w = "takeWhile skipChar (drop i s)"
  let ?j = "i + length ?w"
  have dj: "drop ?j s = dropWhile skipChar (drop i s)"
    by (metis add.commute drop_drop dropWhile_eq_drop)
  have "takeWhile skipChar (drop ?j s) = []"
    by (simp only: dj takeWhile_dropWhile_nil)
  then have "skipWhitespace (lexAt s ?j (n + count_list ?w (CHR 0x0A))) =
      lexAt s ?j (n + count_list ?w (CHR 0x0A))"
    by (simp add: skipWhitespace_lexAt)
  then show ?thesis
    by (simp add: nextToken_def skipWhitespace_lexAt)
qed

lemma TokenString_EOF: "TokenString v = Some EOF \<Longrightarrow> v = tokenTypeValue EOF"
  by (simp add: TokenString_def split: if_splits)

lemma scanToken_props:
  assumes "scanToken prev (c # r) = (t, k)"
  shows "1 \<le> k \<and> k \<le> Suc (length r) \<and> snd t = take k (c # r) \<and> fst t \<noteq> EOF"
proof (cases "cmpChar c")
  case True
  then have "c \<noteq> CHR ''E''"
    by (auto simp: cmpChar_def)
  then have "TokenString (c # takeWhile cmpChar r) \<noteq> Some EOF"
    using TokenString_EOF by fastforce
  then have "(case TokenString (c # takeWhile cmpChar r) of None \<Rightarrow> Illegal | Some t \<Rightarrow> t) \<noteq> EOF"
    by (auto split: option.splits)
  with True assms show ?thesis
    by (auto simp add: scanToken_def take_length_takeWhile length_takeWhile_le)
next
  case False
  have "TokenString [c] \<noteq> Some EOF"
    using TokenString_EOF by fastforce
  with False assms show ?thesis
    by (auto simp add: scanToken_def take_length_takeWhile length_takeWhile_le
        split: option.splits if_splits)
qed

text \<open>
  One call of \<open>nextToken\<close> from a canonical state: the state after it is canonical, on
  the same input and further on; a token other than the end of input uses up at least
  one character of what is left; only the end-of-input token has the type \<open>EOF\<close>; a
  token's string is \<open>EOF\<close> or is made of characters that were left to read; and the
  token is \<open>EOF\<close> when nothing is left, after which the lexer is past the end.
\<close>

definition tokW :: "Token \<Rightarrow> nat" where
  "tokW t = (if fst t = EOF then 0 else 1)"

lemma nextToken_step:
  assumes "nextToken (lexAt s i n) = (t, l')"
  shows "\<exists>j m. l' = lexAt s j m \<and> i < j \<and> tokW t + (length s - j) \<le> length s - i
           \<and> (fst t = EOF \<longrightarrow> snd t = tokenTypeValue EOF)
           \<and> (snd t = tokenTypeValue EOF \<or> set (snd t) \<subseteq> set (drop i s))
           \<and> (fst t = EOF \<longrightarrow> length s < j)
           \<and> (length s \<le> i \<longrightarrow> fst t = EOF)"
proof -
  let ?w = "takeWhile skipChar (drop i s)"
  let ?j = "i + length ?w"
  let ?m = "n + count_list ?w (CHR 0x0A)"
  have dj: "drop ?j s = dropWhile skipChar (drop i s)"
    by (metis add.commute drop_drop dropWhile_eq_drop)
  from assms have nt: "nextToken (lexAt s ?j ?m) = (t, l')"
    by (simp only: nextToken_skip [symmetric])
  show ?thesis
  proof (cases "drop ?j s")
    case Nil
    then have "length s \<le> ?j" by simp
    with nt have "t = (EOF, tokenTypeValue EOF)" "l' = lexAt s (Suc ?j) ?m"
      by (simp_all add: nextToken_at_end)
    then show ?thesis
      using \<open>length s \<le> ?j\<close> by (auto simp: tokW_def)
  next
    case (Cons c r)
    with dj have "\<not> skipChar c"
      by (metis hd_dropWhile list.sel(1) list.distinct(1))
    from nextToken_at_char [OF Cons this] nt
    obtain k where sc: "scanToken (lastChar (lexAt s ?j ?m)) (c # r) = (t, k)"
      and l': "l' = lexAt s (?j + k) ?m"
      by (cases "scanToken (lastChar (lexAt s ?j ?m)) (c # r)") simp
    from scanToken_props [OF sc]
    have k1: "1 \<le> k" and k2: "k \<le> Suc (length r)" and lx: "snd t = take k (c # r)"
      and ne: "fst t \<noteq> EOF"
      by simp_all
    from Cons have len: "length s - ?j = Suc (length r)"
      by (metis length_drop length_Cons)
    have "set (snd t) \<subseteq> set (c # r)"
      by (simp only: lx) (rule set_take_subset)
    also have "\<dots> \<subseteq> set (drop i s)"
      using Cons dj by (metis set_dropWhileD subsetI)
    finally have sub: "set (snd t) \<subseteq> set (drop i s)" .
    from k1 k2 len ne have "i < ?j + k" "tokW t + (length s - (?j + k)) \<le> length s - i"
      by (simp_all add: tokW_def)
    moreover from len have "\<not> length s \<le> i"
      by simp
    ultimately show ?thesis
      using l' ne sub by blast
  qed
qed

section \<open>Operations and the expression tree\<close>

text \<open>
  An \<open>Operation\<close> is the triple of \<open>number.ts\<close>: the function on numbers, the function
  on strings and the priority.
\<close>

record Operation =
  op_apply :: "jsnum \<Rightarrow> jsnum \<Rightarrow> jsnum"
  op_symbol :: "string \<Rightarrow> string \<Rightarrow> string"
  op_priority :: int

definition sum_op :: Operation where
  "sum_op = \<lparr>op_apply = js_add, op_symbol = (\<lambda>a b. a @ '' + '' @ b), op_priority = 0\<rparr>"

definition sub_op :: Operation where
  "sub_op = \<lparr>op_apply = js_sub, op_symbol = (\<lambda>a b. a @ '' - '' @ b), op_priority = 0\<rparr>"

definition mul_op :: Operation where
  "mul_op = \<lparr>op_apply = js_mul, op_symbol = (\<lambda>a b. a @ '' * '' @ b), op_priority = 1\<rparr>"

definition div_op :: Operation where
  "div_op = \<lparr>op_apply = js_div, op_symbol = (\<lambda>a b. a @ '' / '' @ b), op_priority = 1\<rparr>"

text \<open>
  A \<open>Number\<close> of the program is a tuple of two closures, a priority and two children.
  The closures of \<open>identity\<close> capture the value, those of \<open>compound\<close> the two operands and
  the operation; the datatype keeps what is captured, and the five components of the tuple
  are the functions \<open>get\<close>, \<open>numToString\<close>, \<open>operationPriority\<close>, \<open>left\<close> and \<open>right\<close>.
\<close>

datatype Number = identity jsnum | compound Number Operation Number

definition compoundFromValues :: "jsnum \<Rightarrow> Operation \<Rightarrow> jsnum \<Rightarrow> Number" where
  "compoundFromValues a o' b = compound (identity a) o' (identity b)"

fun operationPriority :: "Number \<Rightarrow> int" where
  "operationPriority (identity a) = - 1"
| "operationPriority (compound a o' b) = op_priority o'"

fun left :: "Number \<Rightarrow> Number option" where
  "left (identity a) = None"
| "left (compound a o' b) = Some a"

fun right :: "Number \<Rightarrow> Number option" where
  "right (identity a) = None"
| "right (compound a o' b) = Some b"

fun get :: "Number \<Rightarrow> jsnum" where
  "get (identity a) = a"
| "get (compound a o' b) = op_apply o' (get a) (get b)"

subsection \<open>The template literal of a number\<close>

text \<open>
  The string of a number in a template literal: \<open>NaN\<close>, the infinities, and for an
  integer of magnitude at most \<open>2^53\<close> its decimal digits. The strings of the other
  numbers (the shortest digits that read back as the same double) are not modelled:
  they are the parameter \<open>fmt\<close>.
\<close>

fun showNat :: "nat \<Rightarrow> string" where
  "showNat n =
     (if n < 10 then [''0123456789'' ! n]
      else showNat (n div 10) @ [''0123456789'' ! (n mod 10)])"

declare showNat.simps [simp del]

definition toString :: "(rat \<Rightarrow> string) \<Rightarrow> jsnum \<Rightarrow> string" where
  "toString fmt v =
     (case v of
        NaN \<Rightarrow> ''NaN''
      | PInf \<Rightarrow> ''Infinity''
      | NInf \<Rightarrow> ''-Infinity''
      | Fin q \<Rightarrow>
          if of_int \<lfloor>q\<rfloor> = q \<and> \<bar>q\<bar> \<le> 9007199254740992
          then (if q < 0 then ''-'' @ showNat (nat \<lfloor>- q\<rfloor>) else showNat (nat \<lfloor>q\<rfloor>))
          else fmt q)"

fun numToString :: "(rat \<Rightarrow> string) \<Rightarrow> Number \<Rightarrow> string" where
  "numToString fmt (identity a) = toString fmt a"
| "numToString fmt (compound a o' b) =
     (if operationPriority b \<noteq> - 1 \<and> operationPriority b < op_priority o'
      then op_symbol o' (numToString fmt a) (''('' @ numToString fmt b @ '')'')
      else if operationPriority a \<noteq> - 1 \<and> operationPriority a < op_priority o'
      then op_symbol o' (''('' @ numToString fmt a @ '')'') (numToString fmt b)
      else op_symbol o' (numToString fmt a) (numToString fmt b))"

subsection \<open>Levels and depth\<close>

function getLevel :: "Number option \<Rightarrow> int \<Rightarrow> Number list" where
  "getLevel None level = []"
| "getLevel (Some num) level =
     (if level \<le> 0 then [num]
      else getLevel (left num) (level - 1) @ getLevel (right num) (level - 1))"
  by pat_completeness auto
termination
proof (relation "measure (\<lambda>(n, l). case n of None \<Rightarrow> 0 | Some t \<Rightarrow> Suc (size t))")
  show "wf (measure (\<lambda>(n, l). case n of None \<Rightarrow> 0 | Some t \<Rightarrow> Suc (size t)))"
    by simp
next
  fix num :: Number and level :: int
  show "((left num, level - 1), Some num, level)
          \<in> measure (\<lambda>(n, l). case n of None \<Rightarrow> 0 | Some t \<Rightarrow> Suc (size t))"
    by (cases num) simp_all
next
  fix num :: Number and level :: int
  show "((right num, level - 1), Some num, level)
          \<in> measure (\<lambda>(n, l). case n of None \<Rightarrow> 0 | Some t \<Rightarrow> Suc (size t))"
    by (cases num) simp_all
qed

function getDepth :: "Number option \<Rightarrow> int \<Rightarrow> int" where
  "getDepth None level = level"
| "getDepth (Some num) level =
     max (getDepth (left num) (level + 1)) (getDepth (right num) (level + 1))"
  by pat_completeness auto
termination
proof (relation "measure (\<lambda>(n, l). case n of None \<Rightarrow> 0 | Some t \<Rightarrow> Suc (size t))")
  show "wf (measure (\<lambda>(n, l). case n of None \<Rightarrow> 0 | Some t \<Rightarrow> Suc (size t)))"
    by simp
next
  fix num :: Number and level :: int
  show "((left num, level + 1), Some num, level)
          \<in> measure (\<lambda>(n, l). case n of None \<Rightarrow> 0 | Some t \<Rightarrow> Suc (size t))"
    by (cases num) simp_all
next
  fix num :: Number and level :: int
  show "((right num, level + 1), Some num, level)
          \<in> measure (\<lambda>(n, l). case n of None \<Rightarrow> 0 | Some t \<Rightarrow> Suc (size t))"
    by (cases num) simp_all
qed

section \<open>The parser\<close>

definition Operations :: "(TokenType \<times> Operation) list" where
  "Operations = [(Sum, sum_op), (Sub, sub_op), (Mul, mul_op), (Div, div_op)]"

definition GroupDelimiters :: "(string \<times> string) list" where
  "GroupDelimiters = [(''('', '')''), (''['', '']''), (''{'', ''}'')]"

text \<open>
  The fields of the class \<open>Parser\<close>; \<open>last\<close> is named \<open>lastN\<close>. An \<open>Error\<close> thrown by
  the program is a value of \<open>error\<close>, one constructor for each \<open>throw\<close>.
\<close>

record Parser =
  lexer :: Lexer
  lastN :: "Number option"
  token :: Token
  peekToken :: Token

datatype error =
    ExpectedOperation TokenType
  | UnknownGroupSymbol string
  | UndefinedGroupResult
  | UndefinedInputResult

definition newParser :: "Lexer \<Rightarrow> Parser" where
  "newParser l =
     (let (t1, l1) = nextToken l;
          (t2, l2) = nextToken l1
      in \<lparr>lexer = l2, lastN = None, token = t1, peekToken = t2\<rparr>)"

text \<open>The private method \<open>nextToken\<close> of the parser.\<close>

definition Parser_nextToken :: "Parser \<Rightarrow> Parser" where
  "Parser_nextToken p =
     (let (t, l) = nextToken (lexer p)
      in p\<lparr>token := peekToken p, peekToken := t, lexer := l\<rparr>)"

definition parseNumber :: "Parser \<Rightarrow> Number" where
  "parseNumber p = identity (toNumber (snd (token p)))"

definition isGroupStart :: "string \<Rightarrow> bool" where
  "isGroupStart v \<longleftrightarrow> v \<in> set (map fst GroupDelimiters)"

text \<open>
  The recursive methods take fuel: every call and every turn of a loop uses one unit,
  and \<open>None\<close> is the answer of a run that has none left. \<open>Some (Inl e)\<close> is a thrown
  error, \<open>Some (Inr (r, p))\<close> the result with the parser after the call.
  \<open>parseGroup_loop\<close> is the \<open>while\<close> of \<open>parseGroup\<close>, with the expected delimiter and
  \<open>groupNum\<close> as arguments.
\<close>

fun parseExpression :: "nat \<Rightarrow> Number option \<Rightarrow> Parser \<Rightarrow> (error + Number \<times> Parser) option"
  and parseGroup :: "nat \<Rightarrow> Parser \<Rightarrow> (error + Number \<times> Parser) option"
  and parseGroup_loop ::
    "nat \<Rightarrow> string \<Rightarrow> Number option \<Rightarrow> Parser \<Rightarrow> (error + Number option \<times> Parser) option"
where
  "parseExpression 0 lst p = None"
| "parseExpression (Suc n) lst p =
     (case lst of
        None \<Rightarrow> Some (Inr (parseNumber p, p))
      | Some l \<Rightarrow>
         (case map_of Operations (fst (token p)) of
            None \<Rightarrow> Some (Inl (ExpectedOperation (fst (token p))))
          | Some operation \<Rightarrow>
              (let p1 = Parser_nextToken p
               in if isGroupStart (snd (token p1)) then
                    (case parseGroup n p1 of
                       None \<Rightarrow> None
                     | Some (Inl e) \<Rightarrow> Some (Inl e)
                     | Some (Inr (g, p2)) \<Rightarrow> Some (Inr (compound l operation g, p2)))
                  else
                    (case parseExpression n None p1 of
                       None \<Rightarrow> None
                     | Some (Inl e) \<Rightarrow> Some (Inl e)
                     | Some (Inr (nextNum, p2)) \<Rightarrow>
                         (case map_of Operations (fst (peekToken p2)) of
                            None \<Rightarrow> Some (Inr (compound l operation (parseNumber p2), p2))
                          | Some nextOperation \<Rightarrow>
                              if op_priority nextOperation > op_priority operation then
                                (case parseExpression n (Some nextNum) (Parser_nextToken p2) of
                                   None \<Rightarrow> None
                                 | Some (Inl e) \<Rightarrow> Some (Inl e)
                                 | Some (Inr (r, p3)) \<Rightarrow> Some (Inr (compound l operation r, p3)))
                              else Some (Inr (compound l operation (parseNumber p2), p2)))))))"
| "parseGroup 0 p = None"
| "parseGroup (Suc n) p =
     (case map_of GroupDelimiters (snd (token p)) of
        None \<Rightarrow> Some (Inl (UnknownGroupSymbol (snd (token p))))
      | Some delimiter \<Rightarrow>
          (case parseGroup_loop n delimiter None (Parser_nextToken p) of
             None \<Rightarrow> None
           | Some (Inl e) \<Rightarrow> Some (Inl e)
           | Some (Inr (groupNum, p1)) \<Rightarrow>
               (case groupNum of
                  None \<Rightarrow> Some (Inl UndefinedGroupResult)
                | Some g \<Rightarrow> Some (Inr (g, p1)))))"
| "parseGroup_loop 0 delimiter groupNum p = None"
| "parseGroup_loop (Suc n) delimiter groupNum p =
     (if snd (token p) = delimiter then Some (Inr (groupNum, p))
      else
        (case parseExpression n groupNum p of
           None \<Rightarrow> None
         | Some (Inl e) \<Rightarrow> Some (Inl e)
         | Some (Inr (g, p1)) \<Rightarrow> parseGroup_loop n delimiter (Some g) (Parser_nextToken p1)))"

definition parseValue :: "nat \<Rightarrow> Parser \<Rightarrow> (error + Number \<times> Parser) option" where
  "parseValue n p =
     (if isGroupStart (snd (token p)) then parseGroup n p else parseExpression n (lastN p) p)"

text \<open>The \<open>while\<close> of \<open>parse\<close>, and the method: the tree, or the error, and the parser left.\<close>

fun parse_loop :: "nat \<Rightarrow> Parser \<Rightarrow> (error + Parser) option" where
  "parse_loop 0 p = None"
| "parse_loop (Suc n) p =
     (if fst (token p) = EOF then Some (Inr p)
      else
        (case parseValue n p of
           None \<Rightarrow> None
         | Some (Inl e) \<Rightarrow> Some (Inl e)
         | Some (Inr (v, p1)) \<Rightarrow> parse_loop n (Parser_nextToken (p1\<lparr>lastN := Some v\<rparr>))))"

definition parse :: "nat \<Rightarrow> Parser \<Rightarrow> (error + Number) option" where
  "parse n p =
     (case parse_loop n p of
        None \<Rightarrow> None
      | Some (Inl e) \<Rightarrow> Some (Inl e)
      | Some (Inr p') \<Rightarrow>
          (case lastN p' of
             None \<Rightarrow> Some (Inl UndefinedInputResult)
           | Some v \<Rightarrow> Some (Inr v)))"

text \<open>
  \<open>new Parser(new Lexer(text)).parse()\<close>, with fuel that is enough for every text
  (theorem \<open>parseText_terminates\<close>).
\<close>

definition parseText :: "string \<Rightarrow> (error + Number) option" where
  "parseText s = parse (4 * length s + 11) (newParser (newLexer s))"

text \<open>The value of the tree that \<open>parse\<close> returns for a text.\<close>

definition evaluateText :: "string \<Rightarrow> (error + jsnum) option" where
  "evaluateText s = map_option (map_sum id get) (parseText s)"

section \<open>Termination of the parser\<close>

text \<open>
  A state of the parser over the text \<open>s\<close>: its lexer is in a canonical state on \<open>s\<close>, its
  two tokens have the type \<open>EOF\<close> only when they are the end-of-input token, and once a
  token is \<open>EOF\<close> the next one is and the lexer is past the end of the text. Its measure
  counts the characters left to read and the tokens held that are not \<open>EOF\<close>.
\<close>

definition tok_ok :: "Token \<Rightarrow> bool" where
  "tok_ok t \<longleftrightarrow> (fst t = EOF \<longrightarrow> snd t = tokenTypeValue EOF)"

definition parser_inv :: "string \<Rightarrow> Parser \<Rightarrow> bool" where
  "parser_inv s p \<longleftrightarrow>
     (\<exists>i n. lexer p = lexAt s i n \<and> (fst (peekToken p) = EOF \<longrightarrow> length s < i))
     \<and> tok_ok (token p) \<and> tok_ok (peekToken p)
     \<and> (fst (token p) = EOF \<longrightarrow> fst (peekToken p) = EOF)"

definition parser_measure :: "Parser \<Rightarrow> nat" where
  "parser_measure p =
     (length (input (lexer p)) - position (lexer p)) + tokW (token p) + tokW (peekToken p)"

text \<open>
  The string \<open>d\<close> of one character is still ahead of the parser: it is one of the two
  tokens held, or its character is left to read.
\<close>

definition ahead :: "string \<Rightarrow> Parser \<Rightarrow> bool" where
  "ahead d p \<longleftrightarrow>
     snd (token p) = d \<or> snd (peekToken p) = d
     \<or> (\<exists>c \<in> set (drop (position (lexer p)) (input (lexer p))). d = [c])"

text \<open>
  \<open>after s p p'\<close>: the parser \<open>p'\<close> is a state over \<open>s\<close> reached from \<open>p\<close>; its measure
  is not larger, and what is ahead of it was ahead of \<open>p\<close>.
\<close>

definition after :: "string \<Rightarrow> Parser \<Rightarrow> Parser \<Rightarrow> bool" where
  "after s p p' \<longleftrightarrow>
     parser_inv s p' \<and> parser_measure p' \<le> parser_measure p
     \<and> (\<forall>c. ahead [c] p' \<longrightarrow> ahead [c] p)"

lemma after_refl: "parser_inv s p \<Longrightarrow> after s p p"
  by (simp add: after_def)

lemma after_trans: "after s p p' \<Longrightarrow> after s p' p'' \<Longrightarrow> after s p p''"
  by (auto simp: after_def)

lemma after_inv: "after s p p' \<Longrightarrow> parser_inv s p'"
  by (simp add: after_def)

lemma after_measure: "after s p p' \<Longrightarrow> parser_measure p' \<le> parser_measure p"
  by (simp add: after_def)

lemma after_lastN: "after s p p' \<Longrightarrow> after s p (p'\<lparr>lastN := x\<rparr>)"
  by (simp add: after_def parser_inv_def parser_measure_def ahead_def)

lemma Parser_nextToken_after:
  assumes "parser_inv s p"
  shows "after s p (Parser_nextToken p)
     \<and> parser_measure (Parser_nextToken p) + tokW (token p) \<le> parser_measure p"
proof -
  from assms obtain i n where l: "lexer p = lexAt s i n"
    and pe: "fst (peekToken p) = EOF \<longrightarrow> length s < i"
    and ok: "tok_ok (token p)" "tok_ok (peekToken p)"
    by (auto simp: parser_inv_def)
  obtain t l' where nt: "nextToken (lexAt s i n) = (t, l')"
    by (cases "nextToken (lexAt s i n)")
  from nextToken_step [OF nt] obtain j m where l': "l' = lexAt s j m" and ij: "i < j"
    and w: "tokW t + (length s - j) \<le> length s - i"
    and e: "fst t = EOF \<longrightarrow> snd t = tokenTypeValue EOF"
    and sub: "snd t = tokenTypeValue EOF \<or> set (snd t) \<subseteq> set (drop i s)"
    and e1: "fst t = EOF \<longrightarrow> length s < j"
    and e2: "length s \<le> i \<longrightarrow> fst t = EOF"
    by blast
  have p': "Parser_nextToken p = p\<lparr>token := peekToken p, peekToken := t, lexer := lexAt s j m\<rparr>"
    by (simp add: Parser_nextToken_def l nt l')
  have inv: "parser_inv s (Parser_nextToken p)"
    using ok e e1 e2 pe by (auto simp add: p' parser_inv_def tok_ok_def)
  have m: "parser_measure (Parser_nextToken p) + tokW (token p) \<le> parser_measure p"
    using w by (simp add: p' parser_measure_def l lexAt_sel)
  have "ahead [c] p" if a: "ahead [c] (Parser_nextToken p)" for c
  proof -
    from a have "snd (peekToken p) = [c] \<or> snd t = [c] \<or> c \<in> set (drop j s)"
      by (auto simp add: p' ahead_def lexAt_sel)
    moreover have "c \<in> set (drop i s)" if "snd t = [c]"
      using sub that by auto
    moreover have "c \<in> set (drop i s)" if "c \<in> set (drop j s)"
      using that ij by (metis less_imp_le_nat set_drop_subset_set_drop subsetD)
    ultimately show ?thesis
      by (auto simp add: ahead_def l lexAt_sel)
  qed
  with inv m show ?thesis
    by (simp add: after_def)
qed

lemma operation_token: "map_of Operations ty = Some operation \<Longrightarrow> tokW (ty, v) = 1"
  by (auto simp: Operations_def tokW_def split: if_splits)

lemma group_token:
  assumes "map_of GroupDelimiters (snd t) = Some d" and "tok_ok t"
  shows "tokW t = 1 \<and> (\<exists>c. d = [c])"
proof -
  from assms(1) have "snd t \<noteq> tokenTypeValue EOF" "\<exists>c. d = [c]"
    by (auto simp: GroupDelimiters_def split: if_splits)
  with assms(2) show ?thesis
    by (auto simp: tok_ok_def tokW_def)
qed

lemma isGroupStart_iff: "isGroupStart v \<longleftrightarrow> map_of GroupDelimiters v \<noteq> None"
  by (simp add: isGroupStart_def GroupDelimiters_def)

text \<open>The ways in which a call returns a result, read off the definition.\<close>

lemma parseExpression_None_result:
  "parseExpression (Suc n) None p = Some (Inr (parseNumber p, p))"
  by simp

lemma parseExpression_Some_cases:
  assumes "parseExpression (Suc n) (Some l) p = Some (Inr (t, p'))"
  obtains (group) operation g where
      "map_of Operations (fst (token p)) = Some operation"
      "isGroupStart (snd (token (Parser_nextToken p)))"
      "parseGroup n (Parser_nextToken p) = Some (Inr (g, p'))"
      "t = compound l operation g"
  | (plain) operation nextNum where
      "map_of Operations (fst (token p)) = Some operation"
      "\<not> isGroupStart (snd (token (Parser_nextToken p)))"
      "parseExpression n None (Parser_nextToken p) = Some (Inr (nextNum, p'))"
      "t = compound l operation (parseNumber p')"
  | (higher) operation nextNum p2 r where
      "map_of Operations (fst (token p)) = Some operation"
      "\<not> isGroupStart (snd (token (Parser_nextToken p)))"
      "parseExpression n None (Parser_nextToken p) = Some (Inr (nextNum, p2))"
      "parseExpression n (Some nextNum) (Parser_nextToken p2) = Some (Inr (r, p'))"
      "t = compound l operation r"
  using assms
  by (auto simp: Let_def split: option.splits sum.splits prod.splits if_splits)

lemma parseGroup_cases:
  assumes "parseGroup (Suc n) p = Some (Inr (t, p'))"
  obtains d where
      "map_of GroupDelimiters (snd (token p)) = Some d"
      "parseGroup_loop n d None (Parser_nextToken p) = Some (Inr (Some t, p'))"
  using assms
  by (auto split: option.splits sum.splits prod.splits)

lemma parseGroup_loop_cases:
  assumes "parseGroup_loop (Suc n) d g p = Some (Inr (g', p'))"
  obtains (stop) "snd (token p) = d" "g' = g" "p' = p"
  | (turn) t p1 where
      "snd (token p) \<noteq> d"
      "parseExpression n g p = Some (Inr (t, p1))"
      "parseGroup_loop n d (Some t) (Parser_nextToken p1) = Some (Inr (g', p'))"
  using assms
  by (auto split: option.splits sum.splits prod.splits if_splits)

text \<open>
  What a call that returns a result has done to the parser: the state is one reached
  from the state before; a call of \<open>parseExpression\<close> without a left operand leaves the
  parser as it was, every other call has used up a token; and the loop of a group ends
  on the expected delimiter.
\<close>

lemma parser_results:
  "(\<forall>lst p t p'. parseExpression n lst p = Some (Inr (t, p')) \<longrightarrow> parser_inv s p \<longrightarrow>
       after s p p' \<and> (lst = None \<longrightarrow> p' = p)
       \<and> (lst \<noteq> None \<longrightarrow> parser_measure p' < parser_measure p))
   \<and> (\<forall>p t p'. parseGroup n p = Some (Inr (t, p')) \<longrightarrow> parser_inv s p \<longrightarrow>
       after s p p' \<and> parser_measure p' < parser_measure p
       \<and> (\<exists>d. map_of GroupDelimiters (snd (token p)) = Some d \<and> ahead d (Parser_nextToken p)))
   \<and> (\<forall>d g p g' p'. parseGroup_loop n d g p = Some (Inr (g', p')) \<longrightarrow> parser_inv s p \<longrightarrow>
       after s p p' \<and> snd (token p') = d)"
proof (induction n)
  case 0
  show ?case by simp
next
  case (Suc n)
  then have IH1: "\<And>lst p t p'. parseExpression n lst p = Some (Inr (t, p')) \<Longrightarrow> parser_inv s p \<Longrightarrow>
       after s p p' \<and> (lst = None \<longrightarrow> p' = p)
       \<and> (lst \<noteq> None \<longrightarrow> parser_measure p' < parser_measure p)"
    and IH2: "\<And>p t p'. parseGroup n p = Some (Inr (t, p')) \<Longrightarrow> parser_inv s p \<Longrightarrow>
       after s p p' \<and> parser_measure p' < parser_measure p"
    and IH3: "\<And>d g p g' p'. parseGroup_loop n d g p = Some (Inr (g', p')) \<Longrightarrow> parser_inv s p \<Longrightarrow>
       after s p p' \<and> snd (token p') = d"
    by blast+
  have E: "after s p p' \<and> (lst = None \<longrightarrow> p' = p)
       \<and> (lst \<noteq> None \<longrightarrow> parser_measure p' < parser_measure p)"
    if eq: "parseExpression (Suc n) lst p = Some (Inr (t, p'))" and inv: "parser_inv s p"
    for lst p t p'
  proof (cases lst)
    case None
    with eq inv show ?thesis
      by (simp add: after_refl)
  next
    case (Some l)
    let ?p1 = "Parser_nextToken p"
    from Parser_nextToken_after [OF inv]
    have a1: "after s p ?p1" and m1: "parser_measure ?p1 + tokW (token p) \<le> parser_measure p"
      by simp_all
    from eq [unfolded Some] show ?thesis
    proof (cases rule: parseExpression_Some_cases)
      case (group operation g)
      from operation_token [OF group(1)] have "tokW (token p) = 1"
        by (cases "token p") simp
      moreover from IH2 [OF group(3) after_inv [OF a1]]
      have "after s ?p1 p'" "parser_measure p' < parser_measure ?p1"
        by simp_all
      ultimately show ?thesis
        using a1 m1 Some by (auto intro: after_trans)
    next
      case (plain operation nextNum)
      from operation_token [OF plain(1)] have "tokW (token p) = 1"
        by (cases "token p") simp
      moreover from IH1 [OF plain(3) after_inv [OF a1]] have "p' = ?p1"
        by simp
      ultimately show ?thesis
        using a1 m1 Some by auto
    next
      case (higher operation nextNum p2 r)
      from operation_token [OF higher(1)] have "tokW (token p) = 1"
        by (cases "token p") simp
      moreover from IH1 [OF higher(3) after_inv [OF a1]] have p2: "p2 = ?p1"
        by simp
      from Parser_nextToken_after [OF after_inv [OF a1]]
      have a2: "after s ?p1 (Parser_nextToken ?p1)"
        by simp
      from IH1 [OF higher(4) [unfolded p2] after_inv [OF a2]]
      have a3: "after s (Parser_nextToken ?p1) p'"
        by simp
      have "after s p p'"
        using a1 a2 a3 by (blast intro: after_trans)
      moreover have "parser_measure p' \<le> parser_measure ?p1"
        using a2 a3 by (meson after_measure le_trans)
      ultimately show ?thesis
        using m1 Some \<open>tokW (token p) = 1\<close> by auto
    qed
  qed
  have L: "after s p p' \<and> snd (token p') = d"
    if eq: "parseGroup_loop (Suc n) d g p = Some (Inr (g', p'))" and inv: "parser_inv s p"
    for d g p g' p'
    using eq
  proof (cases rule: parseGroup_loop_cases)
    case stop
    with inv show ?thesis
      by (simp add: after_refl)
  next
    case (turn t p1)
    from IH1 [OF turn(2) inv] have a1: "after s p p1"
      by simp
    from Parser_nextToken_after [OF after_inv [OF a1]]
    have a2: "after s p1 (Parser_nextToken p1)"
      by simp
    from IH3 [OF turn(3) after_inv [OF a2]]
    have "after s (Parser_nextToken p1) p'" "snd (token p') = d"
      by simp_all
    with a1 a2 show ?thesis
      by (blast intro: after_trans)
  qed
  have G: "after s p p' \<and> parser_measure p' < parser_measure p
       \<and> (\<exists>d. map_of GroupDelimiters (snd (token p)) = Some d \<and> ahead d (Parser_nextToken p))"
    if eq: "parseGroup (Suc n) p = Some (Inr (t, p'))" and inv: "parser_inv s p"
    for p t p'
    using eq
  proof (cases rule: parseGroup_cases)
    case (1 d)
    let ?p1 = "Parser_nextToken p"
    from inv have "tok_ok (token p)"
      by (simp add: parser_inv_def)
    from group_token [OF 1(1) this] obtain c where w: "tokW (token p) = 1" and d: "d = [c]"
      by blast
    from Parser_nextToken_after [OF inv]
    have a1: "after s p ?p1" and m1: "parser_measure ?p1 + tokW (token p) \<le> parser_measure p"
      by simp_all
    from IH3 [OF 1(2) after_inv [OF a1]]
    have a2: "after s ?p1 p'" and tk: "snd (token p') = d"
      by simp_all
    from tk have "ahead [c] p'"
      by (simp add: ahead_def d)
    with a2 have "ahead d ?p1"
      by (simp add: after_def d)
    moreover have "after s p p'"
      using a1 a2 by (rule after_trans)
    moreover have "parser_measure p' < parser_measure p"
      using after_measure [OF a2] m1 w by simp
    ultimately show ?thesis
      using 1(1) by simp
  qed
  from E G L show ?case
    by blast
qed

lemma parseExpression_result:
  assumes "parseExpression n lst p = Some (Inr (t, p'))" and "parser_inv s p"
  shows "after s p p'" and "lst = None \<longrightarrow> p' = p"
    and "lst \<noteq> None \<longrightarrow> parser_measure p' < parser_measure p"
  using parser_results [of n s] assms by blast+

lemma parseGroup_result:
  assumes "parseGroup n p = Some (Inr (t, p'))" and "parser_inv s p"
  shows "after s p p'" and "parser_measure p' < parser_measure p"
    and "\<exists>d. map_of GroupDelimiters (snd (token p)) = Some d \<and> ahead d (Parser_nextToken p)"
  using parser_results [of n s] assms by blast+

lemma parseGroup_loop_result:
  assumes "parseGroup_loop n d g p = Some (Inr (g', p'))" and "parser_inv s p"
  shows "after s p p'" and "snd (token p') = d"
  using parser_results [of n s] assms by blast+

text \<open>Enough fuel: every call returns, with a result or with an error.\<close>

lemma parser_returns:
  "(\<forall>lst p. parser_inv s p \<longrightarrow> 4 * parser_measure p + 2 \<le> n \<longrightarrow>
       parseExpression n lst p \<noteq> None)
   \<and> (\<forall>p. parser_inv s p \<longrightarrow> 4 * parser_measure p + 2 \<le> n \<longrightarrow> parseGroup n p \<noteq> None)
   \<and> (\<forall>d g p. parser_inv s p \<longrightarrow>
       4 * parser_measure p + (if g = None then 2 else 0) + 3 \<le> n \<longrightarrow>
       parseGroup_loop n d g p \<noteq> None)"
proof (induction n)
  case 0
  show ?case by simp
next
  case (Suc n)
  then have IH1: "\<And>lst p. parser_inv s p \<Longrightarrow> 4 * parser_measure p + 2 \<le> n \<Longrightarrow>
       parseExpression n lst p \<noteq> None"
    and IH2: "\<And>p. parser_inv s p \<Longrightarrow> 4 * parser_measure p + 2 \<le> n \<Longrightarrow> parseGroup n p \<noteq> None"
    and IH3: "\<And>d g p. parser_inv s p \<Longrightarrow>
       4 * parser_measure p + (if g = None then 2 else 0) + 3 \<le> n \<Longrightarrow>
       parseGroup_loop n d g p \<noteq> None"
    by blast+
  have E: "parseExpression (Suc n) lst p \<noteq> None"
    if inv: "parser_inv s p" and b: "4 * parser_measure p + 2 \<le> Suc n" for lst p
  proof (cases lst)
    case None
    then show ?thesis by simp
  next
    case (Some l)
    show ?thesis
    proof (cases "map_of Operations (fst (token p))")
      case None
      with Some show ?thesis by simp
    next
      case op: (Some operation)
      let ?p1 = "Parser_nextToken p"
      from operation_token [OF op] have w: "tokW (token p) = 1"
        by (cases "token p") simp
      from Parser_nextToken_after [OF inv] w
      have a1: "after s p ?p1" and m1: "parser_measure ?p1 < parser_measure p"
        by simp_all
      have inv1: "parser_inv s ?p1"
        using a1 by (rule after_inv)
      from m1 b have b1: "4 * parser_measure ?p1 + 2 \<le> n"
        by simp
      then obtain n' where n': "n = Suc n'"
        by (cases n) simp_all
      show ?thesis
      proof (cases "isGroupStart (snd (token ?p1))")
        case True
        from IH2 [OF inv1 b1] obtain r where "parseGroup n ?p1 = Some r"
          by blast
        with Some op True show ?thesis
          by (simp add: Let_def split: sum.splits prod.splits)
      next
        case False
        have e1: "parseExpression n None ?p1 = Some (Inr (parseNumber ?p1, ?p1))"
          by (simp add: n')
        from Parser_nextToken_after [OF inv1]
        have a2: "after s ?p1 (Parser_nextToken ?p1)"
          by simp
        from after_measure [OF a2] b1
        have "4 * parser_measure (Parser_nextToken ?p1) + 2 \<le> n"
          by simp
        from IH1 [OF after_inv [OF a2] this]
        obtain r where "parseExpression n (Some (parseNumber ?p1)) (Parser_nextToken ?p1) = Some r"
          by blast
        with Some op False e1 show ?thesis
          by (simp add: Let_def split: option.splits sum.splits prod.splits)
      qed
    qed
  qed
  have G: "parseGroup (Suc n) p \<noteq> None"
    if inv: "parser_inv s p" and b: "4 * parser_measure p + 2 \<le> Suc n" for p
  proof (cases "map_of GroupDelimiters (snd (token p))")
    case None
    then show ?thesis by simp
  next
    case (Some d)
    let ?p1 = "Parser_nextToken p"
    from inv have "tok_ok (token p)"
      by (simp add: parser_inv_def)
    from group_token [OF Some this] have w: "tokW (token p) = 1"
      by simp
    from Parser_nextToken_after [OF inv] w
    have a1: "after s p ?p1" and m1: "parser_measure ?p1 < parser_measure p"
      by simp_all
    from m1 b have "4 * parser_measure ?p1 + (if (None :: Number option) = None then 2 else 0) + 3 \<le> n"
      by simp
    from IH3 [OF after_inv [OF a1] this]
    obtain r where "parseGroup_loop n d None ?p1 = Some r"
      by blast
    with Some show ?thesis
      by (simp split: option.splits sum.splits prod.splits)
  qed
  have L: "parseGroup_loop (Suc n) d g p \<noteq> None"
    if inv: "parser_inv s p"
      and b: "4 * parser_measure p + (if g = None then 2 else 0) + 3 \<le> Suc n" for d g p
  proof (cases "snd (token p) = d")
    case True
    then show ?thesis by simp
  next
    case False
    from b have "4 * parser_measure p + 2 \<le> n"
      by simp
    from IH1 [OF inv this] obtain r where r: "parseExpression n g p = Some r"
      by blast
    show ?thesis
    proof (cases r)
      case (Inl e)
      with False r show ?thesis by simp
    next
      case (Inr tp)
      obtain t p1 where tp: "tp = (t, p1)"
        by (cases tp)
      from r Inr tp have e: "parseExpression n g p = Some (Inr (t, p1))"
        by simp
      from parseExpression_result [OF e inv]
      have a1: "after s p p1" and same: "g = None \<longrightarrow> p1 = p"
        and less: "g \<noteq> None \<longrightarrow> parser_measure p1 < parser_measure p"
        by simp_all
      from Parser_nextToken_after [OF after_inv [OF a1]]
      have a2: "after s p1 (Parser_nextToken p1)"
        by simp
      have "4 * parser_measure (Parser_nextToken p1)
          + (if Some t = None then 2 else 0) + 3 \<le> n"
        using after_measure [OF a2] same less b by (cases g) auto
      from IH3 [OF after_inv [OF a2] this]
      obtain r' where "parseGroup_loop n d (Some t) (Parser_nextToken p1) = Some r'"
        by blast
      with False e show ?thesis
        by simp
    qed
  qed
  from E G L show ?case
    by blast
qed

lemma parse_loop_returns:
  "parser_inv s p \<Longrightarrow> 4 * parser_measure p + 3 \<le> n \<Longrightarrow> parse_loop n p \<noteq> None"
proof (induction n arbitrary: p)
  case 0
  then show ?case by simp
next
  case (Suc n)
  show ?case
  proof (cases "fst (token p) = EOF")
    case True
    then show ?thesis by simp
  next
    case False
    then have w: "tokW (token p) = 1"
      by (simp add: tokW_def)
    from Suc.prems have b: "4 * parser_measure p + 2 \<le> n"
      by simp
    have "parseValue n p \<noteq> None"
      using parser_returns [of s n] Suc.prems(1) b by (simp add: parseValue_def)
    then obtain r where r: "parseValue n p = Some r"
      by blast
    show ?thesis
    proof (cases r)
      case (Inl e)
      with False r show ?thesis by simp
    next
      case (Inr vp)
      obtain v p1 where vp: "vp = (v, p1)"
        by (cases vp)
      from r Inr vp have e: "parseValue n p = Some (Inr (v, p1))"
        by simp
      let ?p2 = "p1\<lparr>lastN := Some v\<rparr>"
      have "after s p p1 \<and> (p1 = p \<or> parser_measure p1 < parser_measure p)"
      proof (cases "isGroupStart (snd (token p))")
        case True
        with e have "parseGroup n p = Some (Inr (v, p1))"
          by (simp add: parseValue_def)
        from parseGroup_result(1,2) [OF this Suc.prems(1)] show ?thesis
          by simp
      next
        case False
        with e have "parseExpression n (lastN p) p = Some (Inr (v, p1))"
          by (simp add: parseValue_def)
        from parseExpression_result [OF this Suc.prems(1)] show ?thesis
          by (cases "lastN p") simp_all
      qed
      then have a1: "after s p p1"
        and d: "p1 = p \<or> parser_measure p1 < parser_measure p"
        by simp_all
      from a1 have a1': "after s p ?p2"
        by (rule after_lastN)
      from Parser_nextToken_after [OF after_inv [OF a1']]
      have a2: "after s ?p2 (Parser_nextToken ?p2)"
        and m2: "parser_measure (Parser_nextToken ?p2) + tokW (token ?p2) \<le> parser_measure ?p2"
        by simp_all
      have same: "parser_measure ?p2 = parser_measure p1" "token ?p2 = token p1"
        by (simp_all add: parser_measure_def)
      from d have "parser_measure (Parser_nextToken ?p2) < parser_measure p"
      proof
        assume "p1 = p"
        with m2 w same show ?thesis by simp
      next
        assume "parser_measure p1 < parser_measure p"
        with m2 same show ?thesis by simp
      qed
      with Suc.prems(2) have "4 * parser_measure (Parser_nextToken ?p2) + 3 \<le> n"
        by simp
      from Suc.IH [OF after_inv [OF a2] this] False e show ?thesis
        by simp
    qed
  qed
qed

lemma newParser_inv:
  "parser_inv s (newParser (newLexer s)) \<and> parser_measure (newParser (newLexer s)) \<le> length s"
proof -
  obtain t1 l1 where n1: "nextToken (lexAt s 0 0) = (t1, l1)"
    by (cases "nextToken (lexAt s 0 0)")
  from nextToken_step [OF n1] obtain j m where l1: "l1 = lexAt s j m"
    and w1: "tokW t1 + (length s - j) \<le> length s - 0"
    and e1: "fst t1 = EOF \<longrightarrow> snd t1 = tokenTypeValue EOF"
    and f1: "fst t1 = EOF \<longrightarrow> length s < j"
    by blast
  obtain t2 l2 where n2: "nextToken (lexAt s j m) = (t2, l2)"
    by (cases "nextToken (lexAt s j m)")
  from nextToken_step [OF n2] obtain j' m' where l2: "l2 = lexAt s j' m'"
    and w2: "tokW t2 + (length s - j') \<le> length s - j"
    and e2: "fst t2 = EOF \<longrightarrow> snd t2 = tokenTypeValue EOF"
    and f2: "fst t2 = EOF \<longrightarrow> length s < j'"
    and g2: "length s \<le> j \<longrightarrow> fst t2 = EOF"
    by blast
  have p: "newParser (newLexer s) =
      \<lparr>lexer = lexAt s j' m', lastN = None, token = t1, peekToken = t2\<rparr>"
    by (simp add: newParser_def newLexer_lexAt n1 l1 n2 l2)
  from w1 w2 e1 e2 f1 f2 g2 show ?thesis
    by (auto simp add: p parser_inv_def parser_measure_def tok_ok_def lexAt_sel)
qed

lemma parseText_terminates: "\<exists>r. parseText s = Some r"
proof -
  from newParser_inv [of s]
  have inv: "parser_inv s (newParser (newLexer s))"
    and "4 * parser_measure (newParser (newLexer s)) + 3 \<le> 4 * length s + 11"
    by simp_all
  from parse_loop_returns [OF this]
  obtain r where "parse_loop (4 * length s + 11) (newParser (newLexer s)) = Some r"
    by blast
  then show ?thesis
    by (simp add: parseText_def parse_def split: sum.splits option.splits)
qed

text \<open>More fuel does not change what a call returns.\<close>

lemma parser_fuel_Suc:
  "(\<forall>lst p r. parseExpression n lst p = Some r \<longrightarrow> parseExpression (Suc n) lst p = Some r)
   \<and> (\<forall>p r. parseGroup n p = Some r \<longrightarrow> parseGroup (Suc n) p = Some r)
   \<and> (\<forall>d g p r. parseGroup_loop n d g p = Some r \<longrightarrow> parseGroup_loop (Suc n) d g p = Some r)"
proof (induction n)
  case 0
  show ?case by simp
next
  case (Suc n)
  then have IH1: "\<And>lst p r. parseExpression n lst p = Some r \<Longrightarrow> parseExpression (Suc n) lst p = Some r"
    and IH2: "\<And>p r. parseGroup n p = Some r \<Longrightarrow> parseGroup (Suc n) p = Some r"
    and IH3: "\<And>d g p r. parseGroup_loop n d g p = Some r \<Longrightarrow> parseGroup_loop (Suc n) d g p = Some r"
    by blast+
  have E: "parseExpression (Suc (Suc n)) lst p = Some r"
    if "parseExpression (Suc n) lst p = Some r" for lst p r
    using that
    apply (subst parseExpression.simps(2))
    apply (subst (asm) parseExpression.simps(2))
    apply (cases lst)
     apply simp
    apply (cases "map_of Operations (fst (token p))")
     apply simp
    apply (cases "isGroupStart (snd (token (Parser_nextToken p)))")
     apply (cases "parseGroup n (Parser_nextToken p)")
      apply (simp add: Let_def del: parseExpression.simps parseGroup.simps)
     apply (simp add: Let_def IH2 del: parseExpression.simps parseGroup.simps)
    apply (cases "parseExpression n None (Parser_nextToken p)")
     apply (simp add: Let_def del: parseExpression.simps parseGroup.simps)
    apply (frule IH1)
    apply (simp add: Let_def del: parseExpression.simps parseGroup.simps split: sum.splits prod.splits option.splits if_splits)
    apply (auto dest: IH1 simp del: parseExpression.simps parseGroup.simps)
    done
  have G: "parseGroup (Suc (Suc n)) p = Some r" if "parseGroup (Suc n) p = Some r" for p r
    using that
    apply (subst parseGroup.simps(2))
    apply (subst (asm) parseGroup.simps(2))
    apply (cases "map_of GroupDelimiters (snd (token p))")
     apply simp
    apply (rename_tac d)
    apply (case_tac "parseGroup_loop n d None (Parser_nextToken p)")
     apply (simp del: parseGroup_loop.simps)
    apply (simp add: IH3 del: parseGroup_loop.simps)
    done
  have L: "parseGroup_loop (Suc (Suc n)) d g p = Some r"
    if "parseGroup_loop (Suc n) d g p = Some r" for d g p r
    using that
    apply (subst parseGroup_loop.simps(2))
    apply (subst (asm) parseGroup_loop.simps(2))
    apply (cases "snd (token p) = d")
     apply simp
    apply (cases "parseExpression n g p")
     apply (simp del: parseGroup_loop.simps parseExpression.simps)
    apply (frule IH1)
    apply (simp del: parseGroup_loop.simps parseExpression.simps split: sum.splits prod.splits)
    apply (auto dest: IH3 simp del: parseGroup_loop.simps parseExpression.simps)
    done
  from E G L show ?case
    by blast
qed

lemma parseExpression_fuel_Suc:
  "parseExpression n lst p = Some r \<Longrightarrow> parseExpression (Suc n) lst p = Some r"
  using parser_fuel_Suc [of n] by blast

lemma parseGroup_fuel_Suc: "parseGroup n p = Some r \<Longrightarrow> parseGroup (Suc n) p = Some r"
  using parser_fuel_Suc [of n] by blast

lemma parseValue_fuel_Suc: "parseValue n p = Some r \<Longrightarrow> parseValue (Suc n) p = Some r"
  unfolding parseValue_def
  by (cases "isGroupStart (snd (token p))")
     (simp_all only: if_True if_False parseExpression_fuel_Suc parseGroup_fuel_Suc)

lemma parse_loop_fuel_Suc: "parse_loop n p = Some r \<Longrightarrow> parse_loop (Suc n) p = Some r"
proof (induction n arbitrary: p)
  case 0
  then show ?case by simp
next
  case (Suc n)
  show ?case
  proof (cases "fst (token p) = EOF")
    case True
    with Suc.prems show ?thesis by simp
  next
    case False
    from Suc.prems False obtain x where x: "parseValue n p = Some x"
      by (cases "parseValue n p") simp_all
    then have x': "parseValue (Suc n) p = Some x"
      by (rule parseValue_fuel_Suc)
    show ?thesis
    proof (cases x)
      case (Inl e)
      with Suc.prems False x x' show ?thesis
        by (simp del: parse_loop.simps(2) add: parse_loop.simps(2) [of "Suc n"] parse_loop.simps(2) [of n])
    next
      case (Inr vp)
      obtain v p1 where vp: "vp = (v, p1)"
        by (cases vp)
      from Suc.prems False x Inr vp
      have "parse_loop n (Parser_nextToken (p1\<lparr>lastN := Some v\<rparr>)) = Some r"
        by simp
      from Suc.IH [OF this] False x' Inr vp show ?thesis
        by (simp del: parse_loop.simps(2) add: parse_loop.simps(2) [of "Suc n"])
    qed
  qed
qed

lemma parse_fuel_mono: "parse n p = Some r \<Longrightarrow> n \<le> m \<Longrightarrow> parse m p = Some r"
proof (induction m)
  case 0
  then show ?case by simp
next
  case (Suc m)
  show ?case
  proof (cases "n = Suc m")
    case True
    with Suc.prems show ?thesis by simp
  next
    case False
    with Suc.prems have "parse m p = Some r"
      by (simp add: Suc.IH)
    then obtain x where x: "parse_loop m p = Some x"
      by (cases "parse_loop m p") (simp_all add: parse_def)
    from parse_loop_fuel_Suc [OF x] x \<open>parse m p = Some r\<close> show ?thesis
      by (simp add: parse_def)
  qed
qed

lemma parseText_fuel:
  assumes "4 * length s + 11 \<le> m"
  shows "parse m (newParser (newLexer s)) = parseText s"
proof -
  from parseText_terminates obtain r where r: "parseText s = Some r"
    by blast
  then have "parse (4 * length s + 11) (newParser (newLexer s)) = Some r"
    by (simp add: parseText_def)
  from parse_fuel_mono [OF this assms] r show ?thesis
    by simp
qed

text \<open>
  A group whose closing delimiter is not ahead: with enough fuel \<open>parseGroup\<close> returns,
  and what it returns is an error.
\<close>

lemma parseGroup_unterminated:
  assumes inv: "parser_inv s p"
    and d: "map_of GroupDelimiters (snd (token p)) = Some d"
    and na: "\<not> ahead d p"
    and b: "4 * parser_measure p + 2 \<le> n"
  shows "\<exists>e. parseGroup n p = Some (Inl e)"
proof -
  from parser_returns [of s n] inv b obtain r where r: "parseGroup n p = Some r"
    by blast
  show ?thesis
  proof (cases r)
    case (Inl e)
    with r show ?thesis by simp
  next
    case (Inr tp)
    obtain t p' where "tp = (t, p')"
      by (cases tp)
    with r Inr have "parseGroup n p = Some (Inr (t, p'))"
      by simp
    from parseGroup_result(3) [OF this inv] d have a: "ahead d (Parser_nextToken p)"
      by simp
    from inv have "tok_ok (token p)"
      by (simp add: parser_inv_def)
    from group_token [OF d this] obtain c where "d = [c]"
      by blast
    with a Parser_nextToken_after [OF inv] have "ahead d p"
      by (simp add: after_def)
    with na show ?thesis by simp
  qed
qed

text \<open>
  The loop of a group at the end of input: the first turn without a left operand makes
  a leaf of the \<open>EOF\<close> token, the next turn asks for an operation and raises the error.
\<close>

lemma parseGroup_loop_at_EOF:
  assumes inv: "parser_inv s p" and t: "fst (token p) = EOF" and d: "d \<noteq> tokenTypeValue EOF"
  shows "parseGroup_loop (n + 3) d g p = Some (Inl (ExpectedOperation EOF))"
proof -
  have some: "parseGroup_loop (Suc (Suc k)) d (Some x) q = Some (Inl (ExpectedOperation EOF))"
    if "parser_inv s q" "fst (token q) = EOF" for k x q
  proof -
    from that have "snd (token q) = tokenTypeValue EOF"
      by (simp add: parser_inv_def tok_ok_def)
    with d that(2) show ?thesis
      by (simp add: Operations_def)
  qed
  show ?thesis
  proof (cases g)
    case (Some x)
    have "n + 3 = Suc (Suc (Suc n))" by simp
    with some [OF inv t, of "Suc n" x] Some show ?thesis
      by (simp only:)
  next
    case None
    from inv t have tk: "snd (token p) = tokenTypeValue EOF" and pk: "fst (peekToken p) = EOF"
      by (simp_all add: parser_inv_def tok_ok_def)
    from Parser_nextToken_after [OF inv] have inv': "parser_inv s (Parser_nextToken p)"
      by (simp add: after_def)
    have "token (Parser_nextToken p) = peekToken p"
      by (cases "nextToken (lexer p)") (simp add: Parser_nextToken_def)
    with pk have "fst (token (Parser_nextToken p)) = EOF"
      by simp
    from some [OF inv' this, of n "parseNumber p"]
    have "parseGroup_loop (Suc (Suc n)) d (Some (parseNumber p)) (Parser_nextToken p)
        = Some (Inl (ExpectedOperation EOF))" .
    moreover have "n + 3 = Suc (Suc (Suc n))" by simp
    ultimately show ?thesis
      using None tk d
      by (simp only: parseGroup_loop.simps(2) [of "Suc (Suc n)"] parseExpression.simps(2) [of "Suc n"])
         simp
  qed
qed

lemma newParser_ahead:
  assumes "ahead [c] (newParser (newLexer s))"
  shows "c \<in> set s"
proof -
  obtain t1 l1 where n1: "nextToken (lexAt s 0 0) = (t1, l1)"
    by (cases "nextToken (lexAt s 0 0)")
  from nextToken_step [OF n1] obtain j m where l1: "l1 = lexAt s j m"
    and s1: "snd t1 = tokenTypeValue EOF \<or> set (snd t1) \<subseteq> set (drop 0 s)"
    by blast
  obtain t2 l2 where n2: "nextToken (lexAt s j m) = (t2, l2)"
    by (cases "nextToken (lexAt s j m)")
  from nextToken_step [OF n2] obtain j' m' where l2: "l2 = lexAt s j' m'"
    and s2: "snd t2 = tokenTypeValue EOF \<or> set (snd t2) \<subseteq> set (drop j s)"
    by blast
  have p: "newParser (newLexer s) =
      \<lparr>lexer = lexAt s j' m', lastN = None, token = t1, peekToken = t2\<rparr>"
    by (simp add: newParser_def newLexer_lexAt n1 l1 n2 l2)
  from assms have "snd t1 = [c] \<or> snd t2 = [c] \<or> c \<in> set (drop j' s)"
    by (auto simp add: p ahead_def lexAt_sel)
  then show ?thesis
  proof (elim disjE)
    assume "snd t1 = [c]"
    with s1 show ?thesis by auto
  next
    assume "snd t2 = [c]"
    with s2 have "c \<in> set (drop j s)" by auto
    then show ?thesis by (rule in_set_dropD)
  next
    assume "c \<in> set (drop j' s)"
    then show ?thesis by (rule in_set_dropD)
  qed
qed

lemma newParser_token_opener:
  assumes w: "\<forall>x \<in> set w. skipChar x" and g: "map_of GroupDelimiters [o'] = Some d"
  shows "snd (token (newParser (newLexer (w @ o' # rest)))) = [o']
    \<and> fst (token (newParser (newLexer (w @ o' # rest)))) \<noteq> EOF"
proof -
  let ?s = "w @ o' # rest"
  from g have o: "o' = CHR ''('' \<or> o' = CHR ''['' \<or> o' = CHR ''{''"
    by (simp add: GroupDelimiters_def split: if_splits)
  then have ns: "\<not> skipChar o'"
    by (auto simp: skipChar_def)
  with w have tw: "takeWhile skipChar (drop 0 ?s) = w"
    by (simp add: takeWhile_append2)
  have d: "drop (length w) ?s = o' # rest"
    by simp
  have sc: "\<exists>ty. ty \<noteq> EOF \<and> scanToken prev (o' # rest) = ((ty, [o']), 1)" for prev
    using o by (auto simp add: scanToken_def cmpChar_def TokenString_def)
  obtain ty where ty: "ty \<noteq> EOF"
    "scanToken (lastChar (lexAt ?s (length w) (count_list w (CHR 0x0A)))) (o' # rest) = ((ty, [o']), 1)"
    using sc by blast
  have "nextToken (lexAt ?s 0 0) = nextToken (lexAt ?s (length w) (count_list w (CHR 0x0A)))"
    using nextToken_skip [of ?s 0 0] by (simp only: tw) simp
  also have "\<dots> = ((ty, [o']), lexAt ?s (length w + 1) (count_list w (CHR 0x0A)))"
    using nextToken_at_char [OF d ns, of "count_list w (CHR 0x0A)"] ty(2) by simp
  finally have "nextToken (lexAt ?s 0 0) =
      ((ty, [o']), lexAt ?s (length w + 1) (count_list w (CHR 0x0A)))" .
  with ty(1) show ?thesis
    by (simp add: newParser_def newLexer_lexAt split: prod.splits)
qed

lemma parse_unclosed_group:
  assumes w: "\<forall>x \<in> set w. x = CHR '' '' \<or> x = CHR 0x09 \<or> x = CHR 0x0A \<or> x = CHR 0x0D"
    and g: "map_of GroupDelimiters [o'] = Some [c]"
    and c: "c \<notin> set rest"
  shows "\<exists>e. parseText (w @ o' # rest) = Some (Inl e)"
proof -
  let ?s = "w @ o' # rest"
  let ?p = "newParser (newLexer ?s)"
  from w have w': "\<forall>x \<in> set w. skipChar x"
    by (auto simp: skipChar_def)
  from newParser_token_opener [OF w' g]
  have tk: "snd (token ?p) = [o']" and ne: "fst (token ?p) \<noteq> EOF"
    by simp_all
  from g have "c \<noteq> o'" "\<not> skipChar c"
    by (auto simp add: GroupDelimiters_def skipChar_def split: if_splits)
  with c w' have "c \<notin> set ?s"
    by auto
  then have na: "\<not> ahead [c] ?p"
    using newParser_ahead by blast
  from newParser_inv [of ?s] have inv: "parser_inv ?s ?p"
    and b: "4 * parser_measure ?p + 2 \<le> 4 * length ?s + 10"
    by simp_all
  from g tk have "map_of GroupDelimiters (snd (token ?p)) = Some [c]"
    by simp
  from parseGroup_unterminated [OF inv this na b]
  obtain e where "parseGroup (4 * length ?s + 10) ?p = Some (Inl e)"
    by blast
  moreover have "isGroupStart (snd (token ?p))"
    using g tk by (simp add: isGroupStart_iff)
  moreover have "4 * length ?s + 11 = Suc (4 * length ?s + 10)"
    by simp
  ultimately have "parseText ?s = Some (Inl e)"
    using ne by (simp only: parseText_def parse_def parse_loop.simps(2) parseValue_def) simp
  then show ?thesis by blast
qed

section \<open>Depth and levels of a tree\<close>

text \<open>
  The depth in the words of the specification: the number of compound levels strictly
  above the deepest leaf.
\<close>

fun compoundLevels :: "Number \<Rightarrow> nat" where
  "compoundLevels (identity a) = 0"
| "compoundLevels (compound a o' b) = Suc (max (compoundLevels a) (compoundLevels b))"

text \<open>
  The nodes a given number of edges below the root, in the words of the specification:
  the root at distance 0, and at distance \<open>k + 1\<close> the children of the nodes at distance \<open>k\<close>.
\<close>

fun children :: "Number \<Rightarrow> Number list" where
  "children (identity a) = []"
| "children (compound a o' b) = [a, b]"

fun nodesAt :: "nat \<Rightarrow> Number \<Rightarrow> Number list" where
  "nodesAt 0 t = [t]"
| "nodesAt (Suc k) t = concat (map children (nodesAt k t))"

declare getLevel.simps(2) [simp del] getDepth.simps(2) [simp del]

lemma getDepth_compoundLevels:
  "getDepth (Some num) base = base + 1 + int (compoundLevels num)"
proof (induction num arbitrary: base)
  case (identity a)
  show ?case by (simp add: getDepth.simps(2))
next
  case (compound a o' b)
  have "getDepth (Some (compound a o' b)) base =
        max (getDepth (Some a) (base + 1)) (getDepth (Some b) (base + 1))"
    by (simp add: getDepth.simps(2))
  also have "\<dots> = max (base + 2 + int (compoundLevels a)) (base + 2 + int (compoundLevels b))"
    by (simp add: compound.IH)
  also have "\<dots> = base + 1 + int (compoundLevels (compound a o' b))"
    by (simp add: max_def)
  finally show ?case .
qed

lemma nodesAt_children: "nodesAt (Suc k) t = concat (map (nodesAt k) (children t))"
proof (induction k arbitrary: t)
  case 0
  show ?case by (cases t) simp_all
next
  case (Suc k)
  have "nodesAt (Suc (Suc k)) t = concat (map children (nodesAt (Suc k) t))"
    by simp
  also have "\<dots> = concat (map children (concat (map (nodesAt k) (children t))))"
    by (simp only: Suc.IH)
  also have "\<dots> = concat (map (\<lambda>c. concat (map children (nodesAt k c))) (children t))"
    by (cases t) simp_all
  finally show ?case by simp
qed

lemma getLevel_nodesAt: "getLevel (Some num) (int k) = nodesAt k num"
proof (induction k arbitrary: num)
  case 0
  show ?case by (simp add: getLevel.simps(2))
next
  case (Suc k)
  have step: "getLevel (Some num) (int (Suc k)) =
        getLevel (left num) (int k) @ getLevel (right num) (int k)"
    by (simp add: getLevel.simps(2))
  show ?case
  proof (cases num)
    case (identity a)
    with step show ?thesis by (simp del: nodesAt.simps add: nodesAt_children)
  next
    case (compound a o' b)
    with step Suc.IH show ?thesis by (simp del: nodesAt.simps add: nodesAt_children)
  qed
qed

lemma getLevel_beyond: "int (compoundLevels num) < level \<Longrightarrow> getLevel (Some num) level = []"
proof (induction num arbitrary: level)
  case (identity a)
  then show ?case by (simp add: getLevel.simps(2))
next
  case (compound a o' b)
  from compound.prems have "int (compoundLevels a) < level - 1" "int (compoundLevels b) < level - 1"
    by simp_all
  then have "getLevel (Some a) (level - 1) = []" "getLevel (Some b) (level - 1) = []"
    by (simp_all add: compound.IH)
  with compound.prems show ?case by (simp add: getLevel.simps(2))
qed

text \<open>
  C9: \<open>getDepth\<close> of the empty tree is the base; of a node, the larger of the depths of
  its two children computed with the base plus one; a lone leaf has depth 0; started
  at \<open>-1\<close> it is the number of compound levels above the deepest leaf; and the tree
  \<open>X * ((a + b) / (c - d))\<close> has depth 3.
\<close>

theorem getDepth_spec:
  "getDepth None base = base
   \<and> getDepth (Some num) base =
       max (getDepth (left num) (base + 1)) (getDepth (right num) (base + 1))
   \<and> getDepth (Some (identity v)) (- 1) = 0
   \<and> getDepth (Some num) (- 1) = int (compoundLevels num)
   \<and> getDepth (Some (compound (identity X) mul_op
         (compound (compoundFromValues a sum_op b) div_op (compoundFromValues c sub_op d)))) (- 1) = 3"
proof -
  have "getDepth (Some num) base =
       max (getDepth (left num) (base + 1)) (getDepth (right num) (base + 1))"
    by (rule getDepth.simps(2))
  then show ?thesis
    by (simp add: getDepth_compoundLevels compoundFromValues_def)
qed

text \<open>
  C8: for a level \<open>k \<ge> 0\<close>, \<open>getLevel\<close> returns the nodes \<open>k\<close> edges below the root, the
  root itself for level 0; it returns the empty list for the empty tree and for a level
  larger than the depth; and level 3 of the tree \<open>X * ((a + b) / (c - d))\<close> is the four
  leaves \<open>a\<close>, \<open>b\<close>, \<open>c\<close>, \<open>d\<close>.
\<close>

theorem getLevel_spec:
  "getLevel (Some num) (int k) = nodesAt k num
   \<and> getLevel (Some num) 0 = [num]
   \<and> getLevel None level = []
   \<and> (getDepth (Some num) (- 1) < level \<longrightarrow> getLevel (Some num) level = [])
   \<and> getLevel (Some (compound (identity X) mul_op
         (compound (compoundFromValues a sum_op b) div_op (compoundFromValues c sub_op d)))) 3
       = [identity a, identity b, identity c, identity d]"
proof -
  have "getDepth (Some num) (- 1) < level \<longrightarrow> getLevel (Some num) level = []"
    by (simp add: getDepth_compoundLevels getLevel_beyond)
  moreover have "getLevel (Some (compound (identity X) mul_op
         (compound (compoundFromValues a sum_op b) div_op (compoundFromValues c sub_op d)))) 3
       = [identity a, identity b, identity c, identity d]"
    by (simp add: compoundFromValues_def getLevel.simps(2))
  moreover have "getLevel (Some num) 0 = [num]"
    by (simp add: getLevel.simps(2))
  ultimately show ?thesis
    by (simp add: getLevel_nodesAt)
qed

theorem getLevel_spec_witness:
  "getDepth (Some (compound (compoundFromValues (Fin 326) mul_op (Fin 279)) sum_op
       (compoundFromValues (Fin 99) sub_op (Fin 92)))) (- 1) < 3
   \<and> getLevel (Some (compound (compoundFromValues (Fin 326) mul_op (Fin 279)) sum_op
       (compoundFromValues (Fin 99) sub_op (Fin 92)))) 3 = []
   \<and> getLevel (Some (compoundFromValues (Fin 326) mul_op (Fin 279))) (int 1)
       = [identity (Fin 326), identity (Fin 279)]"
  using getLevel_spec [of "compound (compoundFromValues (Fin 326) mul_op (Fin 279)) sum_op
       (compoundFromValues (Fin 99) sub_op (Fin 92))" 0 3]
    getLevel_spec [of "compoundFromValues (Fin 326) mul_op (Fin 279)" 1 0]
  by (simp add: compoundFromValues_def getDepth_compoundLevels)
section \<open>Runs of the program on concrete texts\<close>

text \<open>The equations that evaluate the model on a concrete text.\<close>

lemmas number_eval = isNumber_def isNaN_def toNumber_def trim_def isWhiteSpace_def
  nonDecimalRadix_def strDecimalLiteral_def strUnsignedDecimalLiteral_def splitSign_def
  exponentPart_def radixValue_def digitOf_def isDigit_def scale10_def Let_def

lemmas lexer_eval = tokenize_def newLexer_def readChar_def peekChar_def lastChar_def charAt_def slice_def
  isComparation_def TokenString_def ComparationSymbols_def readComparation_def readNumber_def
  isSignedNumber_def readTokenType_def isSkipped_def nextToken_def newToken_def
  readComparation_loop.simps readNumber_loop.simps skipWhitespace.simps

lemmas parser_eval = evaluateText_def parseText_def parse_def newParser_def Parser_nextToken_def
  parseNumber_def isGroupStart_def GroupDelimiters_def Operations_def parseValue_def
  parseExpression.simps(2) [of "pred_numeral k" for k, folded numeral_eq_Suc]
  parseGroup.simps(2) [of "pred_numeral k" for k, folded numeral_eq_Suc]
  parseGroup_loop.simps(2) [of "pred_numeral k" for k, folded numeral_eq_Suc]
  parse_loop.simps(2) [of "pred_numeral k" for k, folded numeral_eq_Suc]

lemma op_priority_simps [simp]:
  "op_priority sum_op = 0" "op_priority sub_op = 0"
  "op_priority mul_op = 1" "op_priority div_op = 1"
  by (simp_all add: sum_op_def sub_op_def mul_op_def div_op_def)

lemma op_apply_simps:
  "op_apply sum_op = js_add" "op_apply sub_op = js_sub"
  "op_apply mul_op = js_mul" "op_apply div_op = js_div"
  by (simp_all add: sum_op_def sub_op_def mul_op_def div_op_def)

lemma op_symbol_simps:
  "op_symbol sum_op a b = a @ '' + '' @ b" "op_symbol sub_op a b = a @ '' - '' @ b"
  "op_symbol mul_op a b = a @ '' * '' @ b" "op_symbol div_op a b = a @ '' / '' @ b"
  by (simp_all add: sum_op_def sub_op_def mul_op_def div_op_def)

lemmas arith_eval = op_apply_simps js_add_def js_sub_def js_mul_def js_div_def js_inf_def

lemma parse_12_199_5:
  "parseText ''12 * 199 - 5'' =
     Some (Inr (compound (compoundFromValues (Fin 12) mul_op (Fin 199)) sub_op (identity (Fin 5))))"
  by (simp add: number_eval lexer_eval parser_eval compoundFromValues_def)

lemma parse_111_156_2:
  "parseText ''111 - 156 * 2'' =
     Some (Inr (compound (identity (Fin 111)) sub_op (compoundFromValues (Fin 156) mul_op (Fin 2))))"
  by (simp add: number_eval lexer_eval parser_eval compoundFromValues_def)

lemma evaluate_12_199_5: "evaluateText ''12 * 199 - 5'' = Some (Inr (Fin 2383))"
  by (simp add: evaluateText_def parse_12_199_5 compoundFromValues_def arith_eval)

lemma evaluate_111_156_2: "evaluateText ''111 - 156 * 2'' = Some (Inr (Fin (- 201)))"
  by (simp add: evaluateText_def parse_111_156_2 compoundFromValues_def arith_eval)

lemma parse_signed_group:
  "parseText ''10 + (-10)'' =
     Some (Inr (compound (identity (Fin 10)) sum_op (identity (Fin (- 10)))))"
  by (simp add: number_eval lexer_eval parser_eval)

lemma parse_lone_operator: "parseText ''+'' = Some (Inr (identity NaN))"
  by (simp add: number_eval lexer_eval parser_eval)

lemma parse_illegal_character: "parseText ''@'' = Some (Inr (identity NaN))"
  by (simp add: number_eval lexer_eval parser_eval)

lemma parse_illegal_operator: "parseText ''5 @'' = Some (Inl (ExpectedOperation Illegal))"
  by (simp add: number_eval lexer_eval parser_eval)

lemma parse_open_5: "parseText ''(5'' = Some (Inl (ExpectedOperation EOF))"
  by (simp add: number_eval lexer_eval parser_eval)

lemma parse_open: "parseText ''('' = Some (Inl (ExpectedOperation EOF))"
  by (simp add: number_eval lexer_eval parser_eval)

lemma parse_open_open:
  "parseText ''((*5)'' = Some (Inr (compound (identity NaN) mul_op (identity (Fin 5))))"
  by (simp add: number_eval lexer_eval parser_eval)

lemma tokenize_10_minus5:
  "tokenize ''10 -5'' = [(Number, ''10 ''), (Sub, ''-''), (Number, ''5'')]"
  by (simp add: number_eval lexer_eval)

lemma parse_10_minus5:
  "parseText ''10 -5'' = Some (Inr (compoundFromValues (Fin 10) sub_op (Fin 5)))"
  by (simp add: number_eval lexer_eval parser_eval compoundFromValues_def)

lemma tokenize_group_minus5:
  "tokenize ''( -5)'' =
     [(StartParenthesis, ''(''), (Sub, ''-''), (Number, ''5''), (EndParenthesis, '')'')]"
  by (simp add: number_eval lexer_eval)

lemma parse_group_minus5: "parseText ''( -5)'' = Some (Inl (ExpectedOperation Number))"
  by (simp add: number_eval lexer_eval parser_eval)


lemma parse_1_2_3_4:
  "parseText ''1 + 2 * (3 + 4)'' =
     Some (Inr (compound (identity (Fin 1)) sum_op
       (compound (identity (Fin 2)) mul_op (compoundFromValues (Fin 3) sum_op (Fin 4)))))"
  by (simp add: number_eval lexer_eval parser_eval compoundFromValues_def)

section \<open>Blank input\<close>

lemma nextToken_blank:
  assumes "\<forall>c \<in> set (drop i s). skipChar c"
  shows "\<exists>j m. nextToken (lexAt s i n) = ((EOF, tokenTypeValue EOF), lexAt s j m) \<and> length s < j"
proof -
  let ?w = "takeWhile skipChar (drop i s)"
  from assms have w: "?w = drop i s"
    by (simp add: takeWhile_eq_all_conv)
  have "length s \<le> i + length ?w"
    by (simp add: w)
  then have "nextToken (lexAt s (i + length ?w) (n + count_list ?w (CHR 0x0A))) =
      ((EOF, tokenTypeValue EOF), lexAt s (Suc (i + length ?w)) (n + count_list ?w (CHR 0x0A)))"
    by (rule nextToken_at_end)
  then have "nextToken (lexAt s i n) =
      ((EOF, tokenTypeValue EOF), lexAt s (Suc (i + length ?w)) (n + count_list ?w (CHR 0x0A)))"
    by (simp only: nextToken_skip [symmetric])
  moreover have "length s < Suc (i + length ?w)"
    by (simp add: w)
  ultimately show ?thesis by blast
qed

lemma newParser_blank:
  assumes "\<forall>c \<in> set s. skipChar c"
  shows "\<exists>l. newParser (newLexer s) =
     \<lparr>lexer = l, lastN = None, token = (EOF, tokenTypeValue EOF),
      peekToken = (EOF, tokenTypeValue EOF)\<rparr>"
proof -
  from assms have "\<forall>c \<in> set (drop 0 s). skipChar c" by simp
  from nextToken_blank [OF this, of 0]
  obtain j m where t1: "nextToken (lexAt s 0 0) = ((EOF, tokenTypeValue EOF), lexAt s j m)"
    and j: "length s < j" by blast
  from j have "\<forall>c \<in> set (drop j s). skipChar c" by simp
  from nextToken_blank [OF this, of m]
  obtain j' m' where t2: "nextToken (lexAt s j m) = ((EOF, tokenTypeValue EOF), lexAt s j' m')"
    by blast
  show ?thesis
    by (simp add: newParser_def newLexer_lexAt t1 t2)
qed

text \<open>
  C7: for the empty text and for every text of spaces, tabs, new lines and carriage
  returns only, \<open>parse\<close> returns, with any fuel of at least one unit, and the result is
  the error ``could not parse input: result is undefined''. The loop of \<open>parse\<close> leaves
  the parser as it was, so every further call of \<open>parse\<close> fails in the same way.
\<close>

theorem parse_blank:
  assumes "\<forall>c \<in> set s. c = CHR '' '' \<or> c = CHR 0x09 \<or> c = CHR 0x0A \<or> c = CHR 0x0D"
  shows "parseText s = Some (Inl UndefinedInputResult)
    \<and> parse (Suc n) (newParser (newLexer s)) = Some (Inl UndefinedInputResult)
    \<and> parse_loop (Suc n) (newParser (newLexer s)) = Some (Inr (newParser (newLexer s)))"
proof -
  from assms have "\<forall>c \<in> set s. skipChar c"
    by (auto simp: skipChar_def)
  from newParser_blank [OF this] obtain l where
    p: "newParser (newLexer s) =
       \<lparr>lexer = l, lastN = None, token = (EOF, tokenTypeValue EOF),
        peekToken = (EOF, tokenTypeValue EOF)\<rparr>" by blast
  have loop: "parse_loop (Suc k) (newParser (newLexer s)) = Some (Inr (newParser (newLexer s)))" for k
    by (simp add: p)
  have "4 * length s + 11 = Suc (4 * length s + 10)" by simp
  then have "parseText s = Some (Inl UndefinedInputResult)"
    by (simp only: parseText_def parse_def loop) (simp add: p)
  moreover have "parse (Suc n) (newParser (newLexer s)) = Some (Inl UndefinedInputResult)"
    by (simp only: parse_def loop) (simp add: p)
  ultimately show ?thesis
    using loop by simp
qed

theorem parse_blank_witness:
  "parseText [CHR '' '', CHR 0x0A, CHR 0x09, CHR 0x0D, CHR '' '', CHR 0x0A, CHR 0x09, CHR 0x0D,
      CHR '' '', CHR 0x0A, CHR 0x09, CHR 0x0D] = Some (Inl UndefinedInputResult)
   \<and> parseText [] = Some (Inl UndefinedInputResult)"
  using parse_blank [of "[CHR '' '', CHR 0x0A, CHR 0x09, CHR 0x0D, CHR '' '', CHR 0x0A, CHR 0x09,
      CHR 0x0D, CHR '' '', CHR 0x0A, CHR 0x09, CHR 0x0D]" 0] parse_blank [of "[]" 0]
  by simp

section \<open>Rendering and the sign rule, as the code has them\<close>

text \<open>
  What \<open>numToString\<close> does at a compound: the right child is wrapped when it is a
  compound of lower priority; the left child is wrapped when it is a compound of lower
  priority and the right child is not wrapped.
\<close>

definition lowerCompound :: "Number \<Rightarrow> Operation \<Rightarrow> bool" where
  "lowerCompound c o' \<longleftrightarrow> operationPriority c \<noteq> - 1 \<and> operationPriority c < op_priority o'"


lemma numToString_examples:
  "numToString fmt (compound (compoundFromValues (Fin 294105) sub_op (Fin 78522)) mul_op
      (identity (Fin 19538))) = ''(294105 - 78522) * 19538''"
  "numToString fmt (compound (identity (Fin 19538)) mul_op
      (compoundFromValues (Fin 294105) sub_op (Fin 78522))) = ''19538 * (294105 - 78522)''"
  "numToString fmt (compound (compoundFromValues (Fin 381) mul_op (Fin 1958)) sum_op
      (identity (Fin 69120))) = ''381 * 1958 + 69120''"
  by (simp_all add: compoundFromValues_def op_symbol_simps toString_def showNat.simps)

text \<open>
  C2 (the code differs): when both children are compounds of lower priority, the code
  returns from its first test and wraps the right child only. The tree
  \<open>(1 + 2) * (3 + 4)\<close> is rendered \<open>1 + 2 * (3 + 4)\<close>, which reads back as
  \<open>1 + (2 * (3 + 4))\<close>.
\<close>

theorem numToString_both_lower:
  "numToString fmt (compound (compoundFromValues (Fin 1) sum_op (Fin 2)) mul_op
      (compoundFromValues (Fin 3) sum_op (Fin 4))) = ''1 + 2 * (3 + 4)''
   \<and> get (compound (compoundFromValues (Fin 1) sum_op (Fin 2)) mul_op
      (compoundFromValues (Fin 3) sum_op (Fin 4))) = Fin 21
   \<and> evaluateText ''1 + 2 * (3 + 4)'' = Some (Inr (Fin 15))"
  by (simp add: evaluateText_def parse_1_2_3_4 compoundFromValues_def op_symbol_simps
      toString_def showNat.simps arith_eval)

text \<open>
  The sign rule of the code on a canonical state: the character read is a sign, the next
  character satisfies \<open>isNumber\<close> and the character before does not. \<open>isNumber\<close> holds of
  white space as well as of digits.
\<close>

lemma lastChar_lexAt:
  "isNumber (lastChar (lexAt s i n)) \<longleftrightarrow> 0 < i \<and> i \<le> length s \<and> numChar (s ! (i - 1))"
proof (cases "i = 0")
  case True
  have "\<not> numChar (CHR 0x00)"
    by (simp add: numChar_def isDigit_def isWhiteSpace_def)
  with True show ?thesis
    by (simp add: lastChar_def lexAt_sel isNumber_single)
next
  case False
  have "\<not> isNumber []"
    by (simp add: isNumber_def)
  with False show ?thesis
    by (cases "i \<le> length s") (auto simp add: lastChar_def lexAt_sel charAt_def isNumber_single)
qed

lemma isSignedNumber_lexAt:
  "isSignedNumber (lexAt s i n) \<longleftrightarrow>
     i < length s \<and> (s ! i = CHR ''+'' \<or> s ! i = CHR ''-'')
     \<and> Suc i < length s \<and> numChar (s ! Suc i)
     \<and> \<not> (0 < i \<and> numChar (s ! (i - 1)))"
proof (cases "i < length s")
  case False
  then show ?thesis
    by (simp add: isSignedNumber_def lexAt_sel)
next
  case True
  have "isNumber (peekChar (lexAt s i n)) \<longleftrightarrow> Suc i < length s \<and> numChar (s ! Suc i)"
    using isNumber_EOF by (simp add: peekChar_lexAt isNumber_single)
  with True show ?thesis
    by (auto simp add: isSignedNumber_def lexAt_sel lastChar_lexAt)
qed

text \<open>
  C6 (the code differs): in \<open>( -5)\<close> the sign is followed by a digit and preceded by a
  space, not by a digit, and the token before it is not a number; yet the code reads it
  as the operator, because \<open>isNumber\<close> holds of the space. The tokens are \<open>(\<close>, \<open>-\<close>,
  \<open>5\<close>, \<open>)\<close> and \<open>parse\<close> fails. The value of \<open>10 + (-10)\<close> is 0, as the claim says.
\<close>

theorem sign_after_space:
  "isNumber '' ''
   \<and> \<not> isSignedNumber (lexAt ''( -5)'' 2 0)
   \<and> tokenize ''( -5)'' =
       [(StartParenthesis, ''(''), (Sub, ''-''), (Number, ''5''), (EndParenthesis, '')'')]
   \<and> parseText ''( -5)'' = Some (Inl (ExpectedOperation Number))
   \<and> evaluateText ''10 + (-10)'' = Some (Inr (Fin 0))"
proof -
  have "isNumber '' ''"
    by (simp add: isNumber_single numChar_def isWhiteSpace_def)
  moreover have "\<not> isSignedNumber (lexAt ''( -5)'' 2 0)"
    by (simp add: isSignedNumber_lexAt numChar_def isWhiteSpace_def)
  moreover have "evaluateText ''10 + (-10)'' = Some (Inr (Fin 0))"
    by (simp add: evaluateText_def parse_signed_group arith_eval)
  ultimately show ?thesis
    by (simp add: tokenize_group_minus5 parse_group_minus5)
qed

text \<open>
  C10 (the code differs): in \<open>10 -5\<close> the sign is followed by a digit and preceded by a
  space; the code reads it as the operator, so the tokens are the number \<open>10\<close>, the
  operator \<open>-\<close> and the number \<open>5\<close>, and \<open>parse\<close> returns the subtraction, of value 5.
\<close>

theorem space_before_sign:
  "tokenize ''10 -5'' = [(Number, ''10 ''), (Sub, ''-''), (Number, ''5'')]
   \<and> parseText ''10 -5'' = Some (Inr (compoundFromValues (Fin 10) sub_op (Fin 5)))
   \<and> evaluateText ''10 -5'' = Some (Inr (Fin 5))"
  by (simp add: tokenize_10_minus5 evaluateText_def parse_10_minus5 compoundFromValues_def
      arith_eval)

section \<open>Operands, groups and errors\<close>

text \<open>
  C3 (counterexample): for the lone operator \<open>+\<close> and for the illegal character \<open>@\<close>,
  where the parser needs an operand and the token is not a number, \<open>parse\<close> raises no
  error: it returns a tree, the leaf \<open>NaN\<close>.
\<close>

theorem operand_not_checked_counterexample:
  "parseText ''+'' = Some (Inr (identity NaN)) \<and> parseText ''@'' = Some (Inr (identity NaN))"
  by (simp add: parse_lone_operator parse_illegal_character)

text \<open>
  C3 (amended): \<open>parseNumber\<close> checks nothing. Called without a left operand,
  \<open>parseExpression\<close> never raises: it returns the leaf of \<open>Number\<close> of the current
  token's string, whatever the token is, and leaves the parser as it was; the leaf is
  \<open>NaN\<close> when the string is not numeric. An error is raised, and is the result of
  \<open>parse\<close>, where an operation is required and the current token is not one of the four
  operators: \<open>5 @\<close> raises ``expected an operation''.
\<close>

theorem operand_not_checked:
  "parseExpression (Suc n) None p = Some (Inr (identity (toNumber (snd (token p))), p))
   \<and> (\<not> isNumber (snd (token p)) \<and> snd (token p) \<noteq> [] \<longrightarrow> parseNumber p = identity NaN)
   \<and> (fst (token p) \<notin> {Sum, Sub, Mul, Div} \<longrightarrow>
        parseExpression (Suc n) (Some l) p = Some (Inl (ExpectedOperation (fst (token p)))))
   \<and> parseText ''5 @'' = Some (Inl (ExpectedOperation Illegal))"
  by (auto simp add: parseNumber_def isNumber_def isNaN_def Operations_def parse_illegal_operator)

theorem operand_not_checked_witness:
  "\<not> isNumber ''@'' \<and> ''@'' \<noteq> []
   \<and> parseNumber \<lparr>lexer = newLexer ''@'', lastN = None, token = (Illegal, ''@''),
        peekToken = (EOF, ''EOF'')\<rparr> = identity NaN
   \<and> Illegal \<notin> {Sum, Sub, Mul, Div}
   \<and> parseExpression (Suc 0) (Some (identity (Fin 5)))
        \<lparr>lexer = newLexer ''@'', lastN = None, token = (Illegal, ''@''),
         peekToken = (EOF, ''EOF'')\<rparr> = Some (Inl (ExpectedOperation Illegal))"
proof -
  have h: "\<not> isNumber ''@'' \<and> ''@'' \<noteq> []"
    by (simp add: isNumber_single numChar_def isDigit_def isWhiteSpace_def)
  from operand_not_checked [of 0
      "\<lparr>lexer = newLexer ''@'', lastN = None, token = (Illegal, ''@''),
        peekToken = (EOF, ''EOF'')\<rparr>" "identity (Fin 5)"] h
  show ?thesis
    by (simp del: parseExpression.simps)
qed

section \<open>Groups without their closing delimiter\<close>

text \<open>
  A group that is entered: with enough fuel \<open>parseGroup\<close> returns, and it returns a tree
  only with its closing delimiter as the current token, further on in the text.
\<close>

lemma parseGroup_closed:
  assumes inv: "parser_inv s p"
    and d: "map_of GroupDelimiters (snd (token p)) = Some d"
    and b: "4 * parser_measure p + 2 \<le> n"
  shows "(\<exists>e. parseGroup n p = Some (Inl e))
     \<or> (\<exists>g p'. parseGroup n p = Some (Inr (g, p')) \<and> snd (token p') = d
           \<and> parser_measure p' < parser_measure p)"
proof -
  from parser_returns [of s n] inv b obtain r where r: "parseGroup n p = Some r"
    by blast
  show ?thesis
  proof (cases r)
    case (Inl e)
    with r show ?thesis by simp
  next
    case (Inr tp)
    obtain t p' where "tp = (t, p')"
      by (cases tp)
    with r Inr have res: "parseGroup n p = Some (Inr (t, p'))"
      by simp
    then obtain k where n: "n = Suc k"
      by (cases n) simp_all
    from Parser_nextToken_after [OF inv] have inv1: "parser_inv s (Parser_nextToken p)"
      by (simp add: after_def)
    from res [unfolded n] d
    have "parseGroup_loop k d None (Parser_nextToken p) = Some (Inr (Some t, p'))"
      by (auto split: option.splits sum.splits prod.splits)
    from parseGroup_loop_result(2) [OF this inv1] have "snd (token p') = d" .
    with res parseGroup_result(2) [OF res inv] show ?thesis
      by simp
  qed
qed

lemma parse_unclosed_examples:
  "parseText ''(1 + (2)'' = Some (Inl (ExpectedOperation EOF))"
  "parseText ''1 + (5'' = Some (Inl (ExpectedOperation EOF))"
  "parseText ''((1))'' = Some (Inl (ExpectedOperation Number))"
  by (simp_all add: number_eval lexer_eval parser_eval)

text \<open>
  C4 (the code differs): in \<open>((*5)\<close> one of the two opening parentheses is never matched
  by a closing one, and \<open>parse\<close> returns a tree. The loop of a group calls
  \<open>parseExpression\<close> and not \<open>parseValue\<close>, so the second parenthesis, the first token
  inside the group, is not entered as a group: it is read as an operand, the leaf \<open>NaN\<close>
  (and \<open>((1))\<close> raises an error). What holds for every text: \<open>parse\<close> returns, and fuel
  beyond the bound of \<open>parseText\<close> does not change what it returns; a group that is
  entered raises an error unless it ends at its closing delimiter, further on in the
  text, as in \<open>(5\<close>, \<open>(\<close>, \<open>(1 + (2)\<close> and \<open>1 + (5\<close>; and the loop of a group does not
  consume end-of-input tokens for ever: at such a token it raises ``expected an
  operation'' within two turns.
\<close>

theorem unclosed_group:
  "parseText ''((*5)'' = Some (Inr (compound (identity NaN) mul_op (identity (Fin 5))))
   \<and> parseText ''((1))'' = Some (Inl (ExpectedOperation Number))
   \<and> (\<exists>r. parseText s = Some r)
   \<and> (4 * length s + 11 \<le> m \<longrightarrow> parse m (newParser (newLexer s)) = parseText s)
   \<and> (parser_inv s p \<and> map_of GroupDelimiters (snd (token p)) = Some d
        \<and> 4 * parser_measure p + 2 \<le> n \<longrightarrow>
        (\<exists>e. parseGroup n p = Some (Inl e))
        \<or> (\<exists>t p'. parseGroup n p = Some (Inr (t, p')) \<and> snd (token p') = d
              \<and> parser_measure p' < parser_measure p))
   \<and> (parser_inv s p \<and> fst (token p) = EOF \<and> d \<noteq> ''EOF'' \<longrightarrow>
        parseGroup_loop (n + 3) d g p = Some (Inl (ExpectedOperation EOF)))
   \<and> ((\<forall>x \<in> set w. x = CHR '' '' \<or> x = CHR 0x09 \<or> x = CHR 0x0A \<or> x = CHR 0x0D)
        \<and> map_of GroupDelimiters [o'] = Some [c] \<and> c \<notin> set rest \<longrightarrow>
        (\<exists>e. parseText (w @ o' # rest) = Some (Inl e)))
   \<and> parseText ''(5'' = Some (Inl (ExpectedOperation EOF))
   \<and> parseText ''('' = Some (Inl (ExpectedOperation EOF))
   \<and> parseText ''(1 + (2)'' = Some (Inl (ExpectedOperation EOF))
   \<and> parseText ''1 + (5'' = Some (Inl (ExpectedOperation EOF))"
proof -
  have "parser_inv s p \<and> fst (token p) = EOF \<and> d \<noteq> ''EOF'' \<longrightarrow>
        parseGroup_loop (n + 3) d g p = Some (Inl (ExpectedOperation EOF))"
    using parseGroup_loop_at_EOF [of s p d n g] by simp
  moreover have "parser_inv s p \<and> map_of GroupDelimiters (snd (token p)) = Some d
        \<and> 4 * parser_measure p + 2 \<le> n \<longrightarrow>
        (\<exists>e. parseGroup n p = Some (Inl e))
        \<or> (\<exists>t p'. parseGroup n p = Some (Inr (t, p')) \<and> snd (token p') = d
              \<and> parser_measure p' < parser_measure p)"
    using parseGroup_closed [of s p d n] by blast
  moreover have "(\<forall>x \<in> set w. x = CHR '' '' \<or> x = CHR 0x09 \<or> x = CHR 0x0A \<or> x = CHR 0x0D)
        \<and> map_of GroupDelimiters [o'] = Some [c] \<and> c \<notin> set rest \<longrightarrow>
        (\<exists>e. parseText (w @ o' # rest) = Some (Inl e))"
    using parse_unclosed_group [of w o' c rest] by blast
  moreover have "\<exists>r. parseText s = Some r"
    by (rule parseText_terminates)
  moreover have "4 * length s + 11 \<le> m \<longrightarrow> parse m (newParser (newLexer s)) = parseText s"
    using parseText_fuel [of s m] by blast
  moreover note parse_open_5 parse_open parse_open_open parse_unclosed_examples
  ultimately show ?thesis
    by blast
qed

theorem unclosed_group_witness:
  "parse 100 (newParser (newLexer ''(5)'')) = parseText ''(5)''
   \<and> parser_inv ''(5)'' (newParser (newLexer ''(5)''))
   \<and> map_of GroupDelimiters (snd (token (newParser (newLexer ''(5)'')))) = Some '')''
   \<and> (\<exists>t p'. parseGroup 50 (newParser (newLexer ''(5)'')) = Some (Inr (t, p'))
         \<and> snd (token p') = '')'')
   \<and> fst (token (Parser_nextToken (Parser_nextToken (Parser_nextToken
        (newParser (newLexer ''(5)'')))))) = EOF
   \<and> parseGroup_loop (0 + 3) '')'' None
        (Parser_nextToken (Parser_nextToken (Parser_nextToken (newParser (newLexer ''(5)'')))))
       = Some (Inl (ExpectedOperation EOF))
   \<and> (\<exists>e. parseText ('' '' @ CHR ''('' # ''5'') = Some (Inl e))"
proof -
  let ?p = "newParser (newLexer ''(5)'')"
  let ?q = "Parser_nextToken (Parser_nextToken (Parser_nextToken ?p))"
  have p: "?p = \<lparr>lexer = lexAt ''(5)'' 2 0, lastN = None, token = (StartParenthesis, ''(''),
      peekToken = (Number, ''5'')\<rparr>"
    by (simp add: number_eval lexer_eval parser_eval lexAt_def)
  have inv: "parser_inv ''(5)'' ?p" and "parser_measure ?p \<le> 3"
    using newParser_inv [of "''(5)''"] by simp_all
  then have b: "4 * parser_measure ?p + 2 \<le> 50"
    by simp
  have d: "map_of GroupDelimiters (snd (token ?p)) = Some '')''"
    by (simp only: p) (simp add: GroupDelimiters_def)
  have "parser_inv ''(5)'' (Parser_nextToken ?p)"
    using Parser_nextToken_after [OF inv] by (simp add: after_def)
  then have "parser_inv ''(5)'' (Parser_nextToken (Parser_nextToken ?p))"
    using Parser_nextToken_after [of "''(5)''" "Parser_nextToken ?p"] by (simp add: after_def)
  then have invq: "parser_inv ''(5)'' ?q"
    using Parser_nextToken_after [of "''(5)''" "Parser_nextToken (Parser_nextToken ?p)"]
    by (simp add: after_def)
  have q: "fst (token ?q) = EOF"
    by (simp only: p) (simp add: Parser_nextToken_def lexAt_def number_eval lexer_eval)
  have f: "4 * length ''(5)'' + 11 \<le> (100::nat)"
    by simp
  have ne: "'')'' \<noteq> ''EOF''"
    by simp
  have w: "(\<forall>x \<in> set '' ''. x = CHR '' '' \<or> x = CHR 0x09 \<or> x = CHR 0x0A \<or> x = CHR 0x0D)
      \<and> map_of GroupDelimiters [CHR ''(''] = Some [CHR '')''] \<and> CHR '')'' \<notin> set ''5''"
    by (simp add: GroupDelimiters_def)
  have ok: "parseGroup 50 ?p = Some (Inr (identity (Fin 5),
      \<lparr>lexer = lexAt ''(5)'' 4 0, lastN = None, token = (EndParenthesis, '')''),
        peekToken = (EOF, ''EOF'')\<rparr>))"
    by (simp only: p) (simp add: number_eval lexer_eval parser_eval lexAt_def)
  note T = unclosed_group [of "''(5)''" 100 ?p "'')''" 50 None "'' ''" "CHR ''(''" "CHR '')''" "''5''"]
  note U = unclosed_group [of "''(5)''" 100 ?q "'')''" 0 None "'' ''" "CHR ''(''" "CHR '')''" "''5''"]
  note T' = T [THEN conjunct2, THEN conjunct2, THEN conjunct2]
  note U' = U [THEN conjunct2, THEN conjunct2, THEN conjunct2]
  have one: "parse 100 ?p = parseText ''(5)''"
    by (rule mp [OF T' [THEN conjunct1] f])
  have "(\<exists>e. parseGroup 50 ?p = Some (Inl e))
        \<or> (\<exists>t p'. parseGroup 50 ?p = Some (Inr (t, p')) \<and> snd (token p') = '')''
              \<and> parser_measure p' < parser_measure ?p)"
    by (rule mp [OF T' [THEN conjunct2, THEN conjunct1]]) (intro conjI inv d b)
  with ok have two: "\<exists>t p'. parseGroup 50 ?p = Some (Inr (t, p')) \<and> snd (token p') = '')''"
    by (simp only:) simp
  have three: "parseGroup_loop (0 + 3) '')'' None ?q = Some (Inl (ExpectedOperation EOF))"
    by (rule mp [OF U' [THEN conjunct2, THEN conjunct2, THEN conjunct1]])
       (intro conjI invq q ne)
  have four: "\<exists>e. parseText ('' '' @ CHR ''('' # ''5'') = Some (Inl e)"
    by (rule mp [OF T' [THEN conjunct2, THEN conjunct2, THEN conjunct2, THEN conjunct1] w])
  show ?thesis
    by (intro conjI one two three four inv d q)
qed

section \<open>Decimal digits of a natural number\<close>

lemma showNat_digits: "showNat n \<noteq> [] \<and> (\<forall>c \<in> set (showNat n). isDigit c)"
proof (induction n rule: showNat.induct)
  case (1 n)
  have d: "isDigit (''0123456789'' ! k)" if "k < 10" for k
  proof -
    from that have "''0123456789'' ! k \<in> set ''0123456789''"
      by (intro nth_mem) simp
    then show ?thesis
      by (simp only: isDigit_def)
  qed
  show ?case
  proof (cases "n < 10")
    case True
    then show ?thesis
      using d [of n] by (subst showNat.simps, subst (2) showNat.simps) simp
  next
    case False
    with 1 have "showNat (n div 10) \<noteq> []" "\<forall>c \<in> set (showNat (n div 10)). isDigit c"
      by simp_all
    moreover have "isDigit (''0123456789'' ! (n mod 10))"
      by (rule d) simp
    ultimately show ?thesis
      using False by (subst showNat.simps, subst (2) showNat.simps) simp
  qed
qed

lemma radixDigits_append:
  "radixDigits r acc (xs @ ys) =
     (case radixDigits r acc xs of None \<Rightarrow> None | Some v \<Rightarrow> radixDigits r v ys)"
  by (induction xs arbitrary: acc) (simp_all split: option.splits)

lemma digitOf_digit_char:
  assumes "k < 10"
  shows "digitOf 10 (''0123456789'' ! k) = Some k"
proof -
  from assms have "k = 0 \<or> k = 1 \<or> k = 2 \<or> k = 3 \<or> k = 4 \<or> k = 5 \<or> k = 6 \<or> k = 7 \<or> k = 8 \<or> k = 9"
    by arith
  then show ?thesis
    by (elim disjE) (simp_all add: digitOf_def)
qed

lemma radixDigits_showNat: "radixDigits 10 0 (showNat n) = Some n"
proof (induction n rule: showNat.induct)
  case (1 n)
  show ?case
  proof (cases "n < 10")
    case True
    then show ?thesis
      by (subst showNat.simps) (simp add: digitOf_digit_char)
  next
    case False
    with 1 have "radixDigits 10 0 (showNat (n div 10)) = Some (n div 10)"
      by simp
    moreover have "digitOf 10 (''0123456789'' ! (n mod 10)) = Some (n mod 10)"
      by (rule digitOf_digit_char) simp
    ultimately show ?thesis
      using False by (subst showNat.simps) (simp add: radixDigits_append)
  qed
qed

lemma isDigit_not_space: "isDigit c \<Longrightarrow> \<not> isWhiteSpace c"
  by (drule isDigit_cases) (elim disjE; simp add: isWhiteSpace_def)

lemma isDigit_not_letter:
  "isDigit c \<Longrightarrow> c \<notin> set ''xXoObBI''"
  by (drule isDigit_cases) (elim disjE; simp)

lemma dropWhile_all: "\<forall>c \<in> set xs. P c \<Longrightarrow> dropWhile P (xs @ ys) = dropWhile P ys"
  by (induction xs) simp_all

lemma takeWhile_all: "\<forall>c \<in> set xs. P c \<Longrightarrow> takeWhile P (xs @ ys) = xs @ takeWhile P ys"
  by (induction xs) simp_all

lemma trim_digits:
  assumes "ds \<noteq> []" and "\<forall>c \<in> set ds. isDigit c" and "\<forall>c \<in> set ws. isWhiteSpace c"
  shows "trim (ds @ ws) = ds"
proof -
  from assms(1,2) have h: "\<not> isWhiteSpace (hd ds)" and l: "\<not> isWhiteSpace (last ds)"
    by (simp_all add: isDigit_not_space)
  from assms(1) h have "dropWhile isWhiteSpace (ds @ ws) = ds @ ws"
    by (cases ds) simp_all
  moreover from assms(1) l have "dropWhile isWhiteSpace (rev ds) = rev ds"
    by (cases ds rule: rev_cases) simp_all
  moreover from assms(3) have "\<forall>c \<in> set (rev ws). isWhiteSpace c"
    by simp
  then have "dropWhile isWhiteSpace (rev ws @ rev ds) = dropWhile isWhiteSpace (rev ds)"
    by (rule dropWhile_all)
  ultimately show ?thesis
    by (simp add: trim_def)
qed

lemma toNumber_digits:
  assumes ne: "ds \<noteq> []" and dg: "\<forall>c \<in> set ds. isDigit c"
    and ws: "\<forall>c \<in> set ws. isWhiteSpace c" and v: "radixDigits 10 0 ds = Some v"
  shows "toNumber (ds @ ws) = Fin (of_nat v)"
proof -
  from ne obtain d ds' where ds: "ds = d # ds'"
    by (cases ds) auto
  with dg have d: "isDigit d" and ds': "\<forall>c \<in> set ds'. isDigit c"
    by simp_all
  from isDigit_not_sign [OF d] isDigit_not_letter [OF d]
  have sign: "splitSign ds = (False, ds)" and inf: "ds \<noteq> ''Infinity''"
    by (auto simp add: splitSign_def ds)
  have nd: "nonDecimalRadix ds = None"
  proof (cases ds')
    case Nil
    then show ?thesis
      by (simp add: nonDecimalRadix_def ds)
  next
    case (Cons e es)
    with ds' have "isDigit e" by simp
    from isDigit_not_letter [OF this] Cons show ?thesis
      by (simp add: nonDecimalRadix_def ds)
  qed
  from dg have tw: "takeWhile isDigit ds = ds" "dropWhile isDigit ds = []"
    by simp_all
  from ne v have "strUnsignedDecimalLiteral ds = Some (of_nat v)"
    by (simp add: strUnsignedDecimalLiteral_def tw radixValue_def exponentPart_def scale10_def)
  with sign inf have "strDecimalLiteral ds = Fin (of_nat v)"
    by (simp add: strDecimalLiteral_def)
  with ne nd show ?thesis
    by (simp add: toNumber_def trim_digits [OF ne dg ws])
qed

lemma toNumber_showNat:
  "toNumber (showNat n) = Fin (of_nat n)" "toNumber (showNat n @ '' '') = Fin (of_nat n)"
  using toNumber_digits [of "showNat n" "[]" n] toNumber_digits [of "showNat n" "'' ''" n]
    showNat_digits [of n]
  by (simp_all add: radixDigits_showNat isWhiteSpace_def)

section \<open>The lexer on a text of numbers and operators\<close>

text \<open>The canonical state that has read \<open>pre\<close> and has \<open>suf\<close> left to read.\<close>

definition lexOn :: "string \<Rightarrow> string \<Rightarrow> nat \<Rightarrow> Lexer" where
  "lexOn pre suf n = lexAt (pre @ suf) (length pre) n"

lemma newLexer_lexOn: "newLexer s = lexOn [] s 0"
  by (simp add: newLexer_lexAt lexOn_def)

lemma lexOn_nil: "lexOn pre [] n = lexAt pre (length pre) n"
  by (simp add: lexOn_def)

lemma lastChar_lexOn:
  "lastChar (lexOn pre suf n) = (if pre = [] then [CHR 0x00] else [last pre])"
proof (cases "pre = []")
  case True
  then show ?thesis
    by (simp add: lexOn_def lastChar_def lexAt_sel)
next
  case False
  then have "length pre - Suc 0 < length pre" "length pre - Suc 0 < length pre + length suf"
    by (cases pre; simp)+
  with False show ?thesis
    by (simp add: lexOn_def lastChar_def lexAt_sel charAt_def nth_append last_conv_nth)
qed

lemma lexAt_lexOn:
  "k \<le> length r \<Longrightarrow> lexAt (pre @ r) (length pre + k) n = lexOn (pre @ take k r) (drop k r) n"
  by (simp add: lexOn_def)

lemma nextToken_lexOn_number:
  assumes "isDigit d"
  shows "nextToken (lexOn pre (d # r) n) =
     ((Number, d # takeWhile numChar r), lexOn (pre @ d # takeWhile numChar r) (dropWhile numChar r) n)"
proof -
  from isDigit_cases [OF assms]
  have ns: "\<not> skipChar d" and nc: "\<not> cmpChar d" and ts: "TokenString [d] = None"
    by (elim disjE; simp add: skipChar_def cmpChar_def TokenString_def)+
  from assms have "numChar d"
    by (simp add: numChar_def)
  with nc ts have sc: "scanToken prev (d # r) =
      ((Number, d # takeWhile numChar r), Suc (length (takeWhile numChar r)))" for prev
    by (simp add: scanToken_def)
  have d: "drop (length pre) (pre @ d # r) = d # r"
    by simp
  have "lexAt (pre @ d # r) (length pre + Suc (length (takeWhile numChar r))) n =
      lexOn (pre @ take (Suc (length (takeWhile numChar r))) (d # r))
        (drop (Suc (length (takeWhile numChar r))) (d # r)) n"
    by (rule lexAt_lexOn) (simp add: length_takeWhile_le)
  also have "\<dots> = lexOn (pre @ d # takeWhile numChar r) (dropWhile numChar r) n"
    by (simp add: take_length_takeWhile dropWhile_eq_drop)
  finally show ?thesis
    using nextToken_at_char [OF d ns, of n] by (simp add: lexOn_def sc)
qed

lemma nextToken_lexOn_operator:
  assumes x: "x \<in> set ''+-*/''" and pre: "pre \<noteq> []" "numChar (last pre)"
  shows "nextToken (lexOn pre (x # r) n) = ((the (TokenString [x]), [x]), lexOn (pre @ [x]) r n)"
proof -
  from x have ns: "\<not> skipChar x" and nc: "\<not> cmpChar x"
    and ts: "\<exists>t. TokenString [x] = Some t"
    by (auto simp add: skipChar_def cmpChar_def TokenString_def)
  from pre have "isNumber (lastChar (lexOn pre (x # r) n))"
    by (simp add: lastChar_lexOn isNumber_single)
  with nc ts have sc: "scanToken (lastChar (lexOn pre (x # r) n)) (x # r) =
      ((the (TokenString [x]), [x]), 1)"
    by (auto simp add: scanToken_def)
  have d: "drop (length pre) (pre @ x # r) = x # r"
    by simp
  have "lexAt (pre @ x # r) (length pre + 1) n = lexOn (pre @ take 1 (x # r)) (drop 1 (x # r)) n"
    by (rule lexAt_lexOn) simp
  then have "lexAt (pre @ x # r) (length pre + 1) n = lexOn (pre @ [x]) r n"
    by simp
  with nextToken_at_char [OF d ns, of n] sc show ?thesis
    by (simp add: lexOn_def)
qed

lemma nextToken_lexOn_space:
  "nextToken (lexOn pre (CHR '' '' # suf) n) = nextToken (lexOn (pre @ '' '') suf n)"
proof -
  have s: "skipChar (CHR '' '')"
    by (simp add: skipChar_def)
  have "nextToken (lexOn pre (CHR '' '' # suf) n) =
      nextToken (lexAt (pre @ CHR '' '' # suf) (Suc (length pre + length (takeWhile skipChar suf)))
        (n + count_list (takeWhile skipChar suf) (CHR 0x0A)))"
    using nextToken_skip [of "pre @ CHR '' '' # suf" "length pre" n] s
    by (simp add: lexOn_def)
  moreover have "nextToken (lexOn (pre @ '' '') suf n) =
      nextToken (lexAt (pre @ CHR '' '' # suf) (Suc (length pre + length (takeWhile skipChar suf)))
        (n + count_list (takeWhile skipChar suf) (CHR 0x0A)))"
    using nextToken_skip [of "(pre @ '' '') @ suf" "length (pre @ '' '')" n]
    by (simp add: lexOn_def)
  ultimately show ?thesis
    by simp
qed

lemma nextToken_lexOn_end:
  "nextToken (lexOn pre [] n) = ((EOF, tokenTypeValue EOF), lexAt pre (Suc (length pre)) n)"
  using nextToken_at_end [of pre "length pre" n] by (simp add: lexOn_nil)

lemma nextToken_showNat_space:
  assumes "\<not> numChar x"
  shows "nextToken (lexOn pre (showNat a @ CHR '' '' # x # rest) n) =
     ((Number, showNat a @ '' ''), lexOn (pre @ showNat a @ '' '') (x # rest) n)"
proof -
  from showNat_digits [of a] obtain d ds where ds: "showNat a = d # ds"
    and d: "isDigit d" and dd: "\<forall>c \<in> set ds. numChar c"
    by (cases "showNat a") (auto simp add: numChar_def)
  have sp: "numChar (CHR '' '')"
    by (simp add: numChar_def isWhiteSpace_def)
  from dd have "takeWhile numChar (ds @ CHR '' '' # x # rest) = ds @ takeWhile numChar (CHR '' '' # x # rest)"
    by (rule takeWhile_all)
  with assms sp have tw: "takeWhile numChar (ds @ CHR '' '' # x # rest) = ds @ '' ''"
    by simp
  from dd have "dropWhile numChar (ds @ CHR '' '' # x # rest) = dropWhile numChar (CHR '' '' # x # rest)"
    by (rule dropWhile_all)
  with assms sp have dw: "dropWhile numChar (ds @ CHR '' '' # x # rest) = x # rest"
    by simp
  from nextToken_lexOn_number [OF d, of pre "ds @ CHR '' '' # x # rest" n] show ?thesis
    by (simp add: ds tw dw)
qed

lemma nextToken_showNat_end:
  "nextToken (lexOn pre (showNat a) n) = ((Number, showNat a), lexOn (pre @ showNat a) [] n)"
proof -
  from showNat_digits [of a] obtain d ds where ds: "showNat a = d # ds"
    and d: "isDigit d" and dd: "\<forall>c \<in> set ds. numChar c"
    by (cases "showNat a") (auto simp add: numChar_def)
  from dd have tw: "takeWhile numChar ds = ds" "dropWhile numChar ds = []"
    by simp_all
  from nextToken_lexOn_number [OF d, of pre ds n] show ?thesis
    by (simp add: ds tw)
qed

lemma isGroupStart_showNat: "\<not> isGroupStart (showNat a @ r)"
proof -
  from showNat_digits [of a] obtain d ds where ds: "showNat a = d # ds" and d: "isDigit d"
    by (cases "showNat a") auto
  from isDigit_cases [OF d] show ?thesis
    by (elim disjE; simp add: ds isGroupStart_def GroupDelimiters_def)
qed

section \<open>Parsing the text of a small tree\<close>

lemma isGroupStart_showNat': "\<not> isGroupStart (showNat a)"
  using isGroupStart_showNat [of a "[]"] by simp

lemma isGroupStart_operator:
  "\<not> isGroupStart ''+''" "\<not> isGroupStart ''-''" "\<not> isGroupStart ''*''" "\<not> isGroupStart ''/''"
  by (simp_all add: isGroupStart_def GroupDelimiters_def)

lemma numChar_simps: "numChar (CHR '' '')" "\<not> numChar (CHR ''+'')" "\<not> numChar (CHR ''-'')"
  "\<not> numChar (CHR ''*'')" "\<not> numChar (CHR ''/'')"
  by (simp_all add: numChar_def isDigit_def isWhiteSpace_def)

lemmas symbolic_eval =
  parse_def newParser_def Parser_nextToken_def parseNumber_def parseValue_def Operations_def
  parseExpression.simps(2) [of "pred_numeral k" for k, folded numeral_eq_Suc]
  parse_loop.simps(2) [of "pred_numeral k" for k, folded numeral_eq_Suc]
  newLexer_lexOn nextToken_showNat_space nextToken_showNat_end nextToken_lexOn_operator
  nextToken_lexOn_space nextToken_lexOn_end nextToken_at_end
  isGroupStart_showNat isGroupStart_showNat' isGroupStart_operator numChar_simps
  toNumber_showNat TokenString_def op_symbol_simps

definition operations :: "Operation set" where
  "operations = {sum_op, sub_op, mul_op, div_op}"

lemma parse_leaf_symbolic:
  "parse 11 (newParser (newLexer (showNat a))) = Some (Inr (identity (Fin (of_nat a))))"
  by (simp add: symbolic_eval)

lemma parse_binary_symbolic:
  assumes "o1 \<in> operations"
  shows "parse 11 (newParser (newLexer (op_symbol o1 (showNat a) (showNat b)))) =
     Some (Inr (compound (identity (Fin (of_nat a))) o1 (identity (Fin (of_nat b)))))"
  using assms unfolding operations_def
  by (elim insertE emptyE; simp add: symbolic_eval)

lemma parse_ternary_symbolic:
  assumes "o1 \<in> operations" and "o2 \<in> operations"
  shows "parse 11 (newParser (newLexer
       (op_symbol o1 (showNat a) (op_symbol o2 (showNat b) (showNat c))))) =
     Some (Inr (if op_priority o1 < op_priority o2
       then compound (identity (Fin (of_nat a))) o1
              (compound (identity (Fin (of_nat b))) o2 (identity (Fin (of_nat c))))
       else compound (compound (identity (Fin (of_nat a))) o1 (identity (Fin (of_nat b)))) o2
              (identity (Fin (of_nat c)))))"
  using assms unfolding operations_def
  by (elim insertE emptyE; simp add: symbolic_eval)

lemma parseText_from_fuel:
  assumes "parse 11 (newParser (newLexer s)) = Some r"
  shows "parseText s = Some r"
  unfolding parseText_def by (rule parse_fuel_mono [OF assms]) simp


subsection \<open>Groups\<close>



lemma isGroupStart_paren: "isGroupStart ''(''" "\<not> isGroupStart '')''"
  by (simp_all add: isGroupStart_def GroupDelimiters_def)


subsection \<open>Leaves that are natural numbers, and the four operations\<close>

definition natLeaf :: "nat \<Rightarrow> Number" where
  "natLeaf n = identity (Fin (of_nat n))"



section \<open>Priority\<close>

lemma evaluateText_parse: "parseText s = Some (Inr t) \<Longrightarrow> evaluateText s = Some (Inr (get t))"
  by (simp add: evaluateText_def)

lemma parse_lookahead_examples:
  "parseText ''1 + 2 * 3 * 4'' =
     Some (Inr (compound (compound (identity (Fin 1)) sum_op
       (compound (identity (Fin 2)) mul_op (identity (Fin 3)))) mul_op (identity (Fin 4))))"
  "parseText ''1 + (2) * 3'' =
     Some (Inr (compound (compound (identity (Fin 1)) sum_op (identity (Fin 2))) mul_op
       (identity (Fin 3))))"
  "parseText ''5 + (2 * 3) * 4'' =
     Some (Inr (compound (compound (identity (Fin 5)) sum_op
       (compound (identity (Fin 2)) mul_op (identity (Fin 3)))) mul_op (identity (Fin 4))))"
  by (simp_all add: number_eval lexer_eval parser_eval)

text \<open>
  C5 (the code differs): \<open>12 * 199 - 5\<close> evaluates to \<open>2383\<close> and \<open>111 - 156 * 2\<close> to
  \<open>-201\<close>, and for every text \<open>a o1 b o2 c\<close> of three natural numbers up to \<open>2^53\<close> and
  two of the four operators, \<open>parse\<close> returns \<open>a o1 (b o2 c)\<close> when the priority of \<open>o2\<close>
  is strictly higher than that of \<open>o1\<close>, and \<open>(a o1 b) o2 c\<close> otherwise. The lookahead
  is made once, and only after an operand that is a plain number: in \<open>1 + 2 * 3 * 4\<close>
  the second \<open>*\<close> is applied to \<open>1 + 2 * 3\<close>, and in \<open>1 + (2) * 3\<close> and \<open>5 + (2 * 3) * 4\<close>
  the \<open>*\<close> after the group is applied to the sum. These evaluate to \<open>28\<close>, \<open>9\<close> and \<open>44\<close>,
  where the priority of the operators gives \<open>25\<close>, \<open>7\<close> and \<open>29\<close>.
\<close>

theorem parse_priority:
  "(o1 \<in> operations \<and> o2 \<in> operations
      \<and> a \<le> 9007199254740992 \<and> b \<le> 9007199254740992 \<and> c \<le> 9007199254740992 \<longrightarrow>
      parseText (op_symbol o1 (showNat a) (op_symbol o2 (showNat b) (showNat c))) =
        Some (Inr (if op_priority o1 < op_priority o2
          then compound (natLeaf a) o1 (compound (natLeaf b) o2 (natLeaf c))
          else compound (compound (natLeaf a) o1 (natLeaf b)) o2 (natLeaf c))))
    \<and> evaluateText ''12 * 199 - 5'' = Some (Inr (Fin 2383))
    \<and> evaluateText ''111 - 156 * 2'' = Some (Inr (Fin (- 201)))
    \<and> parseText ''1 + 2 * 3 * 4'' =
        Some (Inr (compound (compound (identity (Fin 1)) sum_op
          (compound (identity (Fin 2)) mul_op (identity (Fin 3)))) mul_op (identity (Fin 4))))
    \<and> evaluateText ''1 + 2 * 3 * 4'' = Some (Inr (Fin 28))
    \<and> evaluateText ''1 + (2) * 3'' = Some (Inr (Fin 9))
    \<and> evaluateText ''5 + (2 * 3) * 4'' = Some (Inr (Fin 44))"
proof -
  have "parseText (op_symbol o1 (showNat a) (op_symbol o2 (showNat b) (showNat c))) =
        Some (Inr (if op_priority o1 < op_priority o2
          then compound (natLeaf a) o1 (compound (natLeaf b) o2 (natLeaf c))
          else compound (compound (natLeaf a) o1 (natLeaf b)) o2 (natLeaf c)))"
    if "o1 \<in> operations" "o2 \<in> operations"
    using parseText_from_fuel [OF parse_ternary_symbolic [OF that, of a b c]]
    by (simp add: natLeaf_def)
  moreover have "evaluateText ''1 + 2 * 3 * 4'' = Some (Inr (Fin 28))"
    "evaluateText ''1 + (2) * 3'' = Some (Inr (Fin 9))"
    "evaluateText ''5 + (2 * 3) * 4'' = Some (Inr (Fin 44))"
    by (simp_all add: evaluateText_parse [OF parse_lookahead_examples(1)]
        evaluateText_parse [OF parse_lookahead_examples(2)]
        evaluateText_parse [OF parse_lookahead_examples(3)] arith_eval)
  moreover note evaluate_12_199_5 evaluate_111_156_2 parse_lookahead_examples(1)
  ultimately show ?thesis
    by blast
qed

theorem parse_priority_witness:
  "sub_op \<in> operations \<and> mul_op \<in> operations \<and> sum_op \<in> operations
   \<and> (111::nat) \<le> 9007199254740992 \<and> (156::nat) \<le> 9007199254740992
   \<and> parseText ''111 - 156 * 2'' =
       Some (Inr (compound (identity (Fin 111)) sub_op
         (compound (identity (Fin 156)) mul_op (identity (Fin 2)))))
   \<and> parseText ''16 + 21 + 9'' =
       Some (Inr (compound (compound (identity (Fin 16)) sum_op (identity (Fin 21))) sum_op
         (identity (Fin 9))))"
proof -
  have o: "sub_op \<in> operations" "mul_op \<in> operations" "sum_op \<in> operations"
    by (simp_all add: operations_def)
  from parse_priority [of sub_op mul_op 111 156 2, THEN conjunct1]
    parse_priority [of sum_op sum_op 16 21 9, THEN conjunct1] o
  show ?thesis
    by (simp add: op_symbol_simps showNat.simps natLeaf_def)
qed

section \<open>Runs of the parser without fuel\<close>





















subsection \<open>The parser as a reader of the lexer\<close>

text \<open>
  The two tokens of a parser are the next two tokens of a lexer \<open>l\<close>, and its own lexer
  is \<open>l\<close> advanced twice: every state of a parser is \<open>pst l v\<close> for the lexer \<open>l\<close> that is
  about to produce its current token.
\<close>

definition tok :: "Lexer \<Rightarrow> Token" where
  "tok l = fst (nextToken l)"

definition adv :: "Lexer \<Rightarrow> Lexer" where
  "adv l = snd (nextToken l)"

definition pst :: "Lexer \<Rightarrow> Number option \<Rightarrow> Parser" where
  "pst l v = \<lparr>lexer = adv (adv l), lastN = v, token = tok l, peekToken = tok (adv l)\<rparr>"



lemma pst_simps [simp]:
  "token (pst l v) = tok l" "peekToken (pst l v) = tok (adv l)" "lastN (pst l v) = v"
  "(pst l v)\<lparr>lastN := w\<rparr> = pst l w"
  by (simp_all add: pst_def)


section \<open>The trees that are read back\<close>

text \<open>
  The values of the leaves: an integer of magnitude at most \<open>2^53\<close>, and one that is not
  negative.
\<close>

definition intValue :: "jsnum \<Rightarrow> bool" where
  "intValue v \<longleftrightarrow>
     (case v of Fin q \<Rightarrow> of_int \<lfloor>q\<rfloor> = q \<and> \<bar>q\<bar> \<le> 9007199254740992 | _ \<Rightarrow> False)"

definition natValue :: "jsnum \<Rightarrow> bool" where
  "natValue v \<longleftrightarrow>
     (case v of Fin q \<Rightarrow> of_int \<lfloor>q\<rfloor> = q \<and> 0 \<le> q \<and> q \<le> 9007199254740992 | _ \<Rightarrow> False)"

text \<open>
  \<open>chain f t\<close>: the tree \<open>t\<close> is a chain that the parser builds from the text of \<open>t\<close>,
  at the start of the whole text when \<open>f\<close> holds and at the start of a group otherwise.
  The left operand is a leaf, or a chain of no lower priority, or (at the start of the
  whole text only) a parenthesised chain. The right operand is a leaf that is not
  negative, or a parenthesised chain of lower priority, or for an operation of
  priority \<open>0\<close> one operation of priority \<open>1\<close> between such a leaf and a leaf or a
  parenthesised chain.
\<close>

fun chain :: "bool \<Rightarrow> Number \<Rightarrow> bool" where
  "chain f (identity v) = intValue v"
| "chain f (compound a o' b) =
     (o' \<in> operations
      \<and> (case a of
           identity v \<Rightarrow> intValue v
         | compound a1 oa a2 \<Rightarrow>
             if op_priority oa < op_priority o'
             then f \<and> \<not> lowerCompound b o' \<and> chain False a
             else chain f a)
      \<and> (case b of
           identity v \<Rightarrow> natValue v
         | compound b1 ob b2 \<Rightarrow>
             if op_priority ob < op_priority o' then chain False b
             else ob \<in> operations \<and> op_priority o' < op_priority ob
               \<and> (case b1 of identity v \<Rightarrow> natValue v | compound x y z \<Rightarrow> False)
               \<and> (case b2 of
                    identity v \<Rightarrow> natValue v
                  | compound x o2 z \<Rightarrow> op_priority o2 < op_priority ob \<and> chain False b2)))"

subsection \<open>The tokens of a rendered tree\<close>














subsection \<open>One operand\<close>





subsection \<open>The loop on the tokens of a chain\<close>



lemma chain_operation: "chain f (compound a o' b) \<Longrightarrow> o' \<in> operations"
  by simp



section \<open>The lexer on a rendered tree\<close>

subsection \<open>Negative numbers\<close>








subsection \<open>The tokens of a rendered tree\<close>





















section \<open>Operands of the priority of their operation\<close>

text \<open>
  A right operand that has the priority of its operation is rendered without
  parentheses, and the parser groups equal priorities to the left: \<open>a + (b - c)\<close> has the
  text of \<open>(a + b) - c\<close>. \<open>leftAssoc t\<close> is the tree in which every such operand of \<open>t\<close> is
  moved to the left; \<open>graft l o' r\<close> puts \<open>l\<close> under the leftmost operation of the priority
  of \<open>o'\<close> on the left edge of \<open>r\<close>.
\<close>

fun graft :: "Number \<Rightarrow> Operation \<Rightarrow> Number \<Rightarrow> Number" where
  "graft l o' (identity v) = compound l o' (identity v)"
| "graft l o' (compound r1 o2 r2) =
     (if op_priority o2 = op_priority o' then compound (graft l o' r1) o2 r2
      else compound l o' (compound r1 o2 r2))"

fun leftAssoc :: "Number \<Rightarrow> Number" where
  "leftAssoc (identity v) = identity v"
| "leftAssoc (compound a o' b) = graft (leftAssoc a) o' (leftAssoc b)"

text \<open>No left operand of the tree is a compound of lower priority than its operation.\<close>

fun leftPlain :: "Number \<Rightarrow> bool" where
  "leftPlain (identity v) = True"
| "leftPlain (compound a o' b) = (\<not> lowerCompound a o' \<and> leftPlain a \<and> leftPlain b)"

text \<open>
  On the left edge of a tree a left operand of lower priority does no harm: only the operands
  below a right operand are moved.
\<close>

fun edgePlain :: "Number \<Rightarrow> bool" where
  "edgePlain (identity v) = True"
| "edgePlain (compound a o' b) = (edgePlain a \<and> leftPlain b)"





lemma lowerCompound_equal:
  "op_priority o1 = op_priority o2 \<Longrightarrow> lowerCompound c o1 = lowerCompound c o2"
  by (simp add: lowerCompound_def)







lemma leftPlain_edgePlain: "leftPlain t \<Longrightarrow> edgePlain t"
  by (induction t) simp_all




lemma chain_leftAssoc: "chain f t \<Longrightarrow> leftAssoc t = t"
proof (induction t arbitrary: f rule: measure_induct_rule [where f = size])
  case (less t)
  show ?case
  proof (cases t)
    case (identity v)
    then show ?thesis by simp
  next
    case (compound a o' b)
    note t = compound
    have a: "leftAssoc a = a"
    proof (cases a)
      case (identity v)
      then show ?thesis by simp
    next
      case (compound a1 oa a2)
      with less.prems have "chain False a \<or> chain f a"
        by (cases "op_priority oa < op_priority o'") (simp_all add: t)
      with less.IH [of a] show ?thesis
        by (auto simp add: t)
    qed
    have b: "leftAssoc b = b \<and> graft a o' b = compound a o' b"
    proof (cases b)
      case (identity v)
      then show ?thesis by simp
    next
      case (compound b1 ob b2)
      note b = compound
      show ?thesis
      proof (cases "op_priority ob < op_priority o'")
        case True
        with less.prems have "chain False b"
          by (simp add: t b)
        with less.IH [of b] True show ?thesis
          by (simp add: t) (simp add: b)
      next
        case False
        with less.prems have hi: "op_priority o' < op_priority ob"
          by (simp add: t b)
        from less.prems False obtain n where b1: "b1 = identity n"
          by (cases b1) (simp_all add: t b)
        have "leftAssoc b2 = b2 \<and> graft b1 ob b2 = compound b1 ob b2"
        proof (cases b2)
          case (identity m)
          then show ?thesis by simp
        next
          case (compound x o2 z)
          with less.prems False have lo: "op_priority o2 < op_priority ob" and c2: "chain False b2"
            by (simp_all add: t b)
          from less.IH [OF _ c2] lo show ?thesis
            by (simp add: t b) (simp add: compound)
        qed
        with hi show ?thesis
          by (simp add: b b1)
      qed
    qed
    with a show ?thesis
      by (simp add: t)
  qed
qed

subsection \<open>The value of the left-associated tree\<close>











section \<open>Reading a rendered tree back\<close>


text \<open>
  More trees that are not read back with their value: a right operand of the priority
  of its operation under \<open>/\<close>, a tree whose text needs more than one token of lookahead,
  a negative leaf after an operator, a leaf that is not an integer (the lexer has no
  token for the decimal point), and a parenthesised operand that begins with a
  parenthesis.
\<close>

lemma roundtrip_other_failures:
  "numToString fmt (compound (identity (Fin 8)) div_op (compoundFromValues (Fin 4) div_op (Fin 2))) =
     ''8 / 4 / 2''"
  "get (compound (identity (Fin 8)) div_op (compoundFromValues (Fin 4) div_op (Fin 2))) = Fin 4"
  "evaluateText ''8 / 4 / 2'' = Some (Inr (Fin 1))"
  "numToString fmt (compound (identity (Fin 1)) sum_op
      (compound (compoundFromValues (Fin 2) mul_op (Fin 3)) mul_op (identity (Fin 4)))) =
     ''1 + 2 * 3 * 4''"
  "parseText ''1 + 2 * 3 * 4'' =
     Some (Inr (compound (compound (identity (Fin 1)) sum_op
       (compoundFromValues (Fin 2) mul_op (Fin 3))) mul_op (identity (Fin 4))))"
  "numToString fmt (compoundFromValues (Fin 1) sub_op (Fin (- 5))) = ''1 - -5''"
  "parseText ''1 - -5'' = Some (Inl (ExpectedOperation Number))"
  "parseText ''1.5'' = Some (Inl (ExpectedOperation Illegal))"
  "numToString fmt (compound (compound (compound (compoundFromValues (Fin 1) sum_op (Fin 2)) mul_op
      (identity (Fin 3))) sum_op (identity (Fin 4))) mul_op (identity (Fin 5))) =
     ''((1 + 2) * 3 + 4) * 5''"
  "parseText ''((1 + 2) * 3 + 4) * 5'' = Some (Inl (ExpectedOperation Number))"
  by (simp_all add: number_eval lexer_eval parser_eval compoundFromValues_def op_symbol_simps
      toString_def showNat.simps arith_eval)

section \<open>The round trip\<close>

text \<open>Some chains: \<open>1 + 2 + 3 - 4\<close>, \<open>1 * 2 + 3 * 4\<close>, \<open>-5 + 3\<close> and \<open>(1 + 2) * 3 - 4 * (5 - 6)\<close>.\<close>

lemma chain_examples:
  "chain True (compound (compound (compound (identity (Fin 1)) sum_op (identity (Fin 2))) sum_op
      (identity (Fin 3))) sub_op (identity (Fin 4)))"
  "chain True (compound (compound (identity (Fin 1)) mul_op (identity (Fin 2))) sum_op
      (compound (identity (Fin 3)) mul_op (identity (Fin 4))))"
  "chain True (compound (identity (Fin (- 5))) sum_op (identity (Fin 3)))"
  "chain True (compound (compound (compound (identity (Fin 1)) sum_op (identity (Fin 2))) mul_op
      (identity (Fin 3))) sub_op
    (compound (identity (Fin 4)) mul_op (compound (identity (Fin 5)) sub_op (identity (Fin 6)))))"
  by (simp_all add: operations_def intValue_def natValue_def lowerCompound_def)


end
